theory Spec2Isabelle
  imports Main "HOL-Library.Sublist" "HOL-Library.Char_ord" "HOL-Library.List_Lexorder"
begin

section \<open>scripts/check\_e2e\_tests\_are\_captured\_in\_ci.py\<close>

text \<open>
  The script reads two files, extracts three lists of suite names with regular
  expressions and compares them. The embedding follows the script function by
  function. Strings are lists of 8-bit characters, ordered by character code, which is
  the order Python's \<^verbatim>\<open>sorted\<close> uses on byte strings. An exception is a value of type
  \<open>error\<close>; a function that may raise returns \<open>error + 'a\<close>, with \<open>Inl\<close> the exception.
\<close>

subsection \<open>Exceptions\<close>

datatype error =
    KeyError string
  | TypeError
  | IndexError
  | ValueError
  | Exception string

subsection \<open>Module constants (lines 31 to 38)\<close>

definition TEST_SUITES_NOT_RUN_ON_TRAVIS :: "string list" where
  "TEST_SUITES_NOT_RUN_ON_TRAVIS =
     [''full'', ''classroomPageFileUploadFeatures'', ''fileUploadFeatures'',
      ''topicAndStoryEditorFileUploadFeatures'']"

definition SAMPLE_TEST_SUITE_THAT_IS_KNOWN_TO_EXIST :: string where
  "SAMPLE_TEST_SUITE_THAT_IS_KNOWN_TO_EXIST = ''explorationImprovementsTab''"

subsection \<open>The regular expressions the script compiles\<close>

text \<open>
  Python's \<^verbatim>\<open>re\<close> module is a backtracking matcher. The four patterns of the script all
  have one shape: a sequence of single-position atoms, one capture group holding a greedy
  repetition of a character class, and a second sequence of atoms. An atom is a literal
  character, the dot (any character but the newline) or the word boundary \<^verbatim>\<open>\b\<close>.
\<close>

datatype atom = Lit char | AnyChar | WordBoundary

record regex =
  before_group :: "atom list"
  group_class :: "char \<Rightarrow> bool"
  group_min :: nat
  after_group :: "atom list"

text \<open>The character ranges of the classes, and \<^verbatim>\<open>\w\<close> without the UNICODE flag.\<close>

definition is_upper :: "char \<Rightarrow> bool" where
  "is_upper c = (CHR ''A'' \<le> c \<and> c \<le> CHR ''Z'')"

definition is_lower :: "char \<Rightarrow> bool" where
  "is_lower c = (CHR ''a'' \<le> c \<and> c \<le> CHR ''z'')"

definition is_digit :: "char \<Rightarrow> bool" where
  "is_digit c = (CHR ''0'' \<le> c \<and> c \<le> CHR ''9'')"

definition is_word_char :: "char \<Rightarrow> bool" where
  "is_word_char c = (is_lower c \<or> is_upper c \<or> is_digit c \<or> c = CHR ''_'')"

text \<open>
  \<^verbatim>\<open>\b\<close> holds between a word character and a non-word character, the two ends of the
  subject counting as non-word. The matcher knows the character before the current
  position (\<open>None\<close> at the start of the subject) and the rest of the subject.
\<close>

definition at_boundary :: "char option \<Rightarrow> string \<Rightarrow> bool" where
  "at_boundary p s =
     ((case p of None \<Rightarrow> False | Some c \<Rightarrow> is_word_char c) \<noteq>
      (case s of [] \<Rightarrow> False | c # _ \<Rightarrow> is_word_char c))"

fun match_atoms :: "atom list \<Rightarrow> char option \<Rightarrow> string \<Rightarrow> (char option \<times> string) option" where
  "match_atoms [] p s = Some (p, s)"
| "match_atoms (Lit c # as) p s =
     (case s of [] \<Rightarrow> None
      | x # xs \<Rightarrow> if x = c then match_atoms as (Some x) xs else None)"
| "match_atoms (AnyChar # as) p s =
     (case s of [] \<Rightarrow> None
      | x # xs \<Rightarrow> if x \<noteq> CHR 0x0A then match_atoms as (Some x) xs else None)"
| "match_atoms (WordBoundary # as) p s =
     (if at_boundary p s then match_atoms as p s else None)"

text \<open>
  The greedy group: the class is first repeated as often as it matches; while the atoms
  after the group fail, one repetition is given back, down to the minimum. The result
  is the captured text, the last character consumed and the rest of the subject.
\<close>

fun backtrack :: "regex \<Rightarrow> nat \<Rightarrow> char option \<Rightarrow> string \<Rightarrow> (string \<times> char option \<times> string) option" where
  "backtrack r k p s =
     (if k < group_min r then None
      else (case match_atoms (after_group r) (if k = 0 then p else Some (s ! (k - 1))) (drop k s) of
              Some (p', rest) \<Rightarrow> Some (take k s, p', rest)
            | None \<Rightarrow> (case k of 0 \<Rightarrow> None | Suc k' \<Rightarrow> backtrack r k' p s)))"

declare backtrack.simps [simp del]

definition match_here :: "regex \<Rightarrow> char option \<Rightarrow> string \<Rightarrow> (string \<times> char option \<times> string) option" where
  "match_here r p s =
     (case match_atoms (before_group r) p s of
        None \<Rightarrow> None
      | Some (p1, s1) \<Rightarrow> backtrack r (length (takeWhile (group_class r) s1)) p1 s1)"

text \<open>
  \<^verbatim>\<open>findall\<close> of a pattern with one group: scan from the left; where the pattern matches,
  keep the group and go on after the match; elsewhere go on one character further. A
  match of one of the script's patterns is never empty (each has a literal character);
  the branch for an empty match advances one character, as Python 2.7 does.
\<close>

function findall :: "regex \<Rightarrow> char option \<Rightarrow> string \<Rightarrow> string list" where
  "findall r p s =
     (case match_here r p s of
        Some (g, p', rest) \<Rightarrow>
          if length rest < length s then g # findall r p' rest
          else g # (case s of [] \<Rightarrow> [] | c # cs \<Rightarrow> findall r (Some c) cs)
      | None \<Rightarrow> (case s of [] \<Rightarrow> [] | c # cs \<Rightarrow> findall r (Some c) cs))"
  by pat_completeness auto
termination
  by (relation "measure (\<lambda>(r, p, s). length s)") auto

declare findall.simps [simp del]

text \<open>Line 53: \<^verbatim>\<open>RUN_E2E_TESTS_([A-Z_]*)=\<close>\<close>

definition test_regex :: regex where
  "test_regex =
     \<lparr>before_group = map Lit ''RUN_E2E_TESTS_'',
      group_class = (\<lambda>c. is_upper c \<or> c = CHR ''_''),
      group_min = 0,
      after_group = [Lit CHR ''='']\<rparr>"

text \<open>
  Lines 73 and 74: \<^verbatim>\<open>bash scripts/run_e2e_tests.sh --suite="([a-zA-Z_-]*)"\<close>. The dot
  before \<^verbatim>\<open>sh\<close> is not escaped in the source: it is the any-character atom.
\<close>

definition e2e_test_suite_regex :: regex where
  "e2e_test_suite_regex =
     \<lparr>before_group =
        map Lit ''bash scripts/run_e2e_tests'' @ [AnyChar] @ map Lit ''sh --suite='' @ [Lit (CHR 0x22)],
      group_class = (\<lambda>c. is_lower c \<or> is_upper c \<or> c = CHR ''_'' \<or> c = CHR ''-''),
      group_min = 0,
      after_group = [Lit (CHR 0x22)]\<rparr>"

text \<open>Lines 89 and 90: \<^verbatim>\<open>suites = {([^}]+)}\<close>\<close>

definition suite_object_regex :: regex where
  "suite_object_regex =
     \<lparr>before_group = map Lit ''suites = {'',
      group_class = (\<lambda>c. c \<noteq> CHR ''}''),
      group_min = 1,
      after_group = [Lit CHR ''}'']\<rparr>"

text \<open>Line 94: \<^verbatim>\<open>\b([a-zA-Z_-]*):\<close>\<close>

definition key_regex :: regex where
  "key_regex =
     \<lparr>before_group = [WordBoundary],
      group_class = (\<lambda>c. is_lower c \<or> is_upper c \<or> c = CHR ''_'' \<or> c = CHR ''-''),
      group_min = 0,
      after_group = [Lit CHR '':'']\<rparr>"

subsection \<open>The parsed .travis.yml\<close>

text \<open>
  \<^verbatim>\<open>read_and_parse_travis_yml_file\<close> (lines 111 to 120) reads the file and hands it to
  \<^verbatim>\<open>utils.dict_from_yaml\<close>; its result, the dictionary, is the input of the two
  extractors here. Indexing a dictionary with an absent key raises KeyError, indexing a
  string with a key raises TypeError.
\<close>

datatype yaml = YamlStr string | YamlDict "(string \<times> yaml) list"

fun dict_get :: "yaml \<Rightarrow> string \<Rightarrow> error + yaml" where
  "dict_get (YamlDict kvs) k = (case map_of kvs k of None \<Rightarrow> Inl (KeyError k) | Some v \<Rightarrow> Inr v)"
| "dict_get (YamlStr s) k = Inl TypeError"

text \<open>\<^verbatim>\<open>str.lower\<close> on a byte string.\<close>

definition lower_char :: "char \<Rightarrow> char" where
  "lower_char c =
     (case map_of (zip ''ABCDEFGHIJKLMNOPQRSTUVWXYZ'' ''abcdefghijklmnopqrstuvwxyz'') c of
        Some l \<Rightarrow> l
      | None \<Rightarrow> c)"

definition lower :: "string \<Rightarrow> string" where
  "lower s = map lower_char s"

subsection \<open>The extractors (lines 41 to 97)\<close>

text \<open>
  \<^verbatim>\<open>python_utils.convert_to_bytes\<close> and \<^verbatim>\<open>utils.snake_case_to_camel_case\<close> belong to
  other modules; the extractors take them as the parameters \<open>convert_to_bytes\<close> and
  \<open>snake_case_to_camel_case\<close>.
\<close>

definition get_e2e_suite_names_from_jobs_travis_yml_file ::
  "(yaml \<Rightarrow> error + string) \<Rightarrow> (string \<Rightarrow> string) \<Rightarrow> yaml \<Rightarrow> error + string list" where
  "get_e2e_suite_names_from_jobs_travis_yml_file convert_to_bytes snake_case_to_camel_case
       travis_file_content =
     (case dict_get travis_file_content ''env'' of Inl e \<Rightarrow> Inl e | Inr env \<Rightarrow>
     (case dict_get env ''jobs'' of Inl e \<Rightarrow> Inl e | Inr v \<Rightarrow>
     (case convert_to_bytes v of Inl e \<Rightarrow> Inl e | Inr jobs_str \<Rightarrow>
        let jobs = findall test_regex None jobs_str;
            suites_from_jobs = map (\<lambda>job. snake_case_to_camel_case (lower job)) jobs
        in Inr (sort suites_from_jobs))))"

definition get_e2e_suite_names_from_script_travis_yml_file ::
  "(yaml \<Rightarrow> error + string) \<Rightarrow> yaml \<Rightarrow> error + string list" where
  "get_e2e_suite_names_from_script_travis_yml_file convert_to_bytes travis_file_content =
     (case dict_get travis_file_content ''script'' of Inl e \<Rightarrow> Inl e | Inr v \<Rightarrow>
     (case convert_to_bytes v of Inl e \<Rightarrow> Inl e | Inr script_str \<Rightarrow>
        let suites_list = findall e2e_test_suite_regex None script_str
        in Inr (sort suites_list)))"

text \<open>
  The argument is what \<^verbatim>\<open>read_protractor_conf_file\<close> returns. Indexing the list of
  matches with 0 raises IndexError when the list is empty.
\<close>

definition get_e2e_suite_names_from_protractor_file :: "string \<Rightarrow> error + string list" where
  "get_e2e_suite_names_from_protractor_file protractor_config_file_content =
     (case findall suite_object_regex None protractor_config_file_content of
        [] \<Rightarrow> Inl IndexError
      | suite_object_string # _ \<Rightarrow>
          let protractor_suites = findall key_regex None suite_object_string
          in Inr (sort protractor_suites))"

subsection \<open>main (lines 123 to 162)\<close>

text \<open>\<^verbatim>\<open>list.remove(x)\<close> deletes the first element equal to x and raises ValueError when there is none.\<close>

fun list_remove :: "'a \<Rightarrow> 'a list \<Rightarrow> error + 'a list" where
  "list_remove x [] = Inl ValueError"
| "list_remove x (y # ys) =
     (if y = x then Inr ys
      else (case list_remove x ys of Inl e \<Rightarrow> Inl e | Inr zs \<Rightarrow> Inr (y # zs)))"

text \<open>The loop of lines 132 and 133, over the list of excluded names.\<close>

fun remove_excluded :: "string list \<Rightarrow> string list \<Rightarrow> error + string list" where
  "remove_excluded [] protractor_test_suites = Inr protractor_test_suites"
| "remove_excluded (excluded_test # rest) protractor_test_suites =
     (case list_remove excluded_test protractor_test_suites of
        Inl e \<Rightarrow> Inl e
      | Inr protractor_test_suites' \<Rightarrow> remove_excluded rest protractor_test_suites')"

text \<open>
  Lines 132 to 162, the part of main after the three extractions: the result is what
  this part prints and how it ends, \<open>Inr ()\<close> for a normal return.
\<close>

definition main_checks :: "string list \<Rightarrow> string list \<Rightarrow> string list \<Rightarrow> string list \<times> (error + unit)" where
  "main_checks protractor_test_suites yaml_jobs yaml_scripts =
     (case remove_excluded TEST_SUITES_NOT_RUN_ON_TRAVIS protractor_test_suites of
        Inl e \<Rightarrow> ([], Inl e)
      | Inr adjusted \<Rightarrow>
          if yaml_jobs = [] then
            ([], Inl (Exception
              ''The e2e test suites that have been extracted from jobs section from travis.ci are empty.''))
          else if yaml_scripts = [] then
            ([], Inl (Exception
              ''The e2e test suites that have been extracted from script section from travis.ci are empty.''))
          else if adjusted = [] then
            ([], Inl (Exception
              ''The e2e test suites that have been extracted from protractor.conf.js are empty.''))
          else if SAMPLE_TEST_SUITE_THAT_IS_KNOWN_TO_EXIST \<notin> set yaml_jobs then
            ([], Inl (Exception
              (''explorationImprovementsTab is expected to be in '' @
               ''the e2e test suites extracted from the jobs section '' @
               ''of .travis.yml file, but it is missing.'')))
          else if SAMPLE_TEST_SUITE_THAT_IS_KNOWN_TO_EXIST \<notin> set yaml_scripts then
            ([], Inl (Exception
              (''explorationImprovementsTab is expected to be in '' @
               ''the e2e test suites extracted from the script section '' @
               ''of .travis.yml file, but it is missing.'')))
          else if SAMPLE_TEST_SUITE_THAT_IS_KNOWN_TO_EXIST \<notin> set adjusted then
            ([], Inl (Exception
              (''explorationImprovementsTab is expected to be in '' @
               ''the e2e test suites extracted from the '' @
               ''protractor.conf.js file, but it is missing.'')))
          else if \<not> (adjusted = yaml_jobs \<and> yaml_jobs = yaml_scripts) then
            ([], Inl (Exception
              ''Protractor test suites and Travis Ci test suites are not in sync.''))
          else ([''Done!''], Inr ()))"

text \<open>
  main: the first line printed, the three extractions in the order of lines 128 to 130
  (an exception of one of them ends main), then the checks.
\<close>

definition main ::
  "(yaml \<Rightarrow> error + string) \<Rightarrow> (string \<Rightarrow> string) \<Rightarrow> yaml \<Rightarrow> string \<Rightarrow> string list \<times> (error + unit)" where
  "main convert_to_bytes snake_case_to_camel_case travis_file_content protractor_config_file_content =
     (let printed = [''Checking e2e tests are captured in travis.yml...''] in
      case get_e2e_suite_names_from_protractor_file protractor_config_file_content of
        Inl e \<Rightarrow> (printed, Inl e)
      | Inr protractor_test_suites \<Rightarrow>
     (case get_e2e_suite_names_from_jobs_travis_yml_file convert_to_bytes snake_case_to_camel_case
             travis_file_content of
        Inl e \<Rightarrow> (printed, Inl e)
      | Inr yaml_jobs \<Rightarrow>
     (case get_e2e_suite_names_from_script_travis_yml_file convert_to_bytes travis_file_content of
        Inl e \<Rightarrow> (printed, Inl e)
      | Inr yaml_scripts \<Rightarrow>
          (case main_checks protractor_test_suites yaml_jobs yaml_scripts of
             (out, r) \<Rightarrow> (printed @ out, r)))))"

subsection \<open>Sample implementations of the two helpers\<close>

text \<open>
  Modelled from the spec: \<^verbatim>\<open>python_utils.convert_to_bytes\<close> is not in this file. The spec
  takes \<^verbatim>\<open>env.jobs\<close> and \<^verbatim>\<open>script\<close> to be string values; a string value is returned
  as its bytes and any other value is refused.
\<close>

fun yaml_str_bytes :: "yaml \<Rightarrow> error + string" where
  "yaml_str_bytes (YamlStr s) = Inr s"
| "yaml_str_bytes (YamlDict kvs) = Inl TypeError"

text \<open>
  Modelled from the spec: \<^verbatim>\<open>utils.snake_case_to_camel_case\<close> is not in this file. The spec
  says a name is case-normalized to camelCase from snake\_case: the underscores go, and
  the letter after an underscore is upper-cased.
\<close>

definition upper_char :: "char \<Rightarrow> char" where
  "upper_char c =
     (case map_of (zip ''abcdefghijklmnopqrstuvwxyz'' ''ABCDEFGHIJKLMNOPQRSTUVWXYZ'') c of
        Some u \<Rightarrow> u
      | None \<Rightarrow> c)"

fun camel_from :: "bool \<Rightarrow> string \<Rightarrow> string" where
  "camel_from up [] = []"
| "camel_from up (c # cs) =
     (if c = CHR ''_'' then camel_from True cs
      else (if up then upper_char c else c) # camel_from False cs)"

definition camel_case_of_snake_case :: "string \<Rightarrow> string" where
  "camel_case_of_snake_case s = camel_from False s"

subsection \<open>What the two patterns of .travis.yml select, in the words of the spec\<close>

text \<open>
  The spec describes the two extractions from the parsed YAML without the scan of
  \<^verbatim>\<open>findall\<close>: all the names of assignments \<^verbatim>\<open>RUN_E2E_TESTS_<UPPER_SNAKE>=\<close> in the
  jobs string, and all the quoted suite names passed to the invocation pattern in the
  script string. The definitions below say this position by position, every position of
  the string being looked at, with no matcher and no skipping; they are compared with
  \<^verbatim>\<open>findall\<close> in the properties.
\<close>

fun strip_prefix :: "string \<Rightarrow> string \<Rightarrow> string option" where
  "strip_prefix [] s = Some s"
| "strip_prefix (x # xs) [] = None"
| "strip_prefix (x # xs) (y # ys) = (if x = y then strip_prefix xs ys else None)"

fun every_position :: "(string \<Rightarrow> 'a option) \<Rightarrow> string \<Rightarrow> 'a list" where
  "every_position f [] = (case f [] of None \<Rightarrow> [] | Some n \<Rightarrow> [n])"
| "every_position f (c # cs) = (case f (c # cs) of None \<Rightarrow> [] | Some n \<Rightarrow> [n]) @ every_position f cs"

text \<open>
  The name of the assignment that starts at the head of the string, if one does: the text
  \<^verbatim>\<open>RUN_E2E_TESTS_\<close>, the longest run of upper-case letters and underscores, and \<^verbatim>\<open>=\<close>.
\<close>

definition is_upper_snake :: "char \<Rightarrow> bool" where
  "is_upper_snake c = (is_upper c \<or> c = CHR ''_'')"

definition assignment_name_at :: "string \<Rightarrow> string option" where
  "assignment_name_at s =
     (case strip_prefix ''RUN_E2E_TESTS_'' s of
        None \<Rightarrow> None
      | Some t \<Rightarrow>
          (case dropWhile is_upper_snake t of
             [] \<Rightarrow> None
           | x # _ \<Rightarrow> if x = CHR ''='' then Some (takeWhile is_upper_snake t) else None))"

definition assignment_names :: "string \<Rightarrow> string list" where
  "assignment_names s = every_position assignment_name_at s"

text \<open>
  The suite name of the invocation that starts at the head of the string, if one does:
  \<^verbatim>\<open>bash scripts/run_e2e_tests\<close>, one character that is not a newline (the dot of the
  pattern), \<^verbatim>\<open>sh --suite="\<close>, the longest run of letters, underscores and hyphens, and
  the closing quote.
\<close>

definition is_suite_name_char :: "char \<Rightarrow> bool" where
  "is_suite_name_char c = (is_lower c \<or> is_upper c \<or> c = CHR ''_'' \<or> c = CHR ''-'')"

definition suite_argument_at :: "string \<Rightarrow> string option" where
  "suite_argument_at s =
     (case strip_prefix ''bash scripts/run_e2e_tests'' s of
        None \<Rightarrow> None
      | Some [] \<Rightarrow> None
      | Some (d # t) \<Rightarrow>
          if d = CHR 0x0A then None
          else (case strip_prefix (''sh --suite='' @ [CHR 0x22]) t of
                  None \<Rightarrow> None
                | Some u \<Rightarrow>
                    (case dropWhile is_suite_name_char u of
                       [] \<Rightarrow> None
                     | x # _ \<Rightarrow>
                         if x = CHR 0x22 then Some (takeWhile is_suite_name_char u) else None)))"

definition suite_arguments :: "string \<Rightarrow> string list" where
  "suite_arguments s = every_position suite_argument_at s"

text \<open>
  The spec's object literal assigned to \<^verbatim>\<open>suites\<close>, when it starts at the head of the
  string: \<^verbatim>\<open>suites = {\<close>, a non-empty body without a closing brace, and the closing
  brace. The result is the body.
\<close>

definition suite_object_at :: "string \<Rightarrow> string option" where
  "suite_object_at s =
     (case strip_prefix ''suites = {'' s of
        None \<Rightarrow> None
      | Some t \<Rightarrow>
          (case dropWhile (\<lambda>c. c \<noteq> CHR ''}'') t of
             [] \<Rightarrow> None
           | x # _ \<Rightarrow>
               if takeWhile (\<lambda>c. c \<noteq> CHR ''}'') t \<noteq> [] then Some (takeWhile (\<lambda>c. c \<noteq> CHR ''}'') t)
               else None))"

text \<open>
  The invocation named by the comment of lines 71 and 72 and by the spec, with the
  literal file name \<^verbatim>\<open>run_e2e_tests.sh\<close>: the quoted suite name of the invocation that
  starts at the head of the string, and the names at every position.
\<close>

definition quoted_suite_name_at :: "string \<Rightarrow> string option" where
  "quoted_suite_name_at s =
     (case strip_prefix (''bash scripts/run_e2e_tests.sh --suite='' @ [CHR 0x22]) s of
        None \<Rightarrow> None
      | Some u \<Rightarrow>
          (case dropWhile is_suite_name_char u of
             [] \<Rightarrow> None
           | x # _ \<Rightarrow>
               if x = CHR 0x22 then Some (takeWhile is_suite_name_char u) else None))"

definition quoted_suite_names :: "string \<Rightarrow> string list" where
  "quoted_suite_names s = every_position quoted_suite_name_at s"

text \<open>
  The spec's \<^verbatim>\<open>suites = { key: value, ... }\<close>: the body of the object literal written
  from its keys. An entry is the text before a key (the gap) and the key; a colon follows
  each key, and \<open>tail\<close> is the text after the last colon. The values are part of the
  gaps and of the tail.
\<close>

fun object_body :: "(string \<times> string) list \<Rightarrow> string \<Rightarrow> string" where
  "object_body [] tail = tail"
| "object_body ((gap, key) # entries) tail = gap @ key @ '':'' @ object_body entries tail"

text \<open>
  An identifier-like key starts with a letter or an underscore and goes on with letters,
  underscores and hyphens. A gap holds no colon and does not end with a word character
  or a hyphen, so that a key starts where a word starts. The body is well formed when
  its colons are the ones that follow the keys.
\<close>

definition is_key :: "string \<Rightarrow> bool" where
  "is_key key =
     (case key of
        [] \<Rightarrow> False
      | c # cs \<Rightarrow> (is_lower c \<or> is_upper c \<or> c = CHR ''_'') \<and> list_all is_suite_name_char cs)"

definition is_gap :: "string \<Rightarrow> bool" where
  "is_gap gap =
     (CHR '':'' \<notin> set gap \<and>
      (gap = [] \<or> (\<not> is_word_char (last gap) \<and> last gap \<noteq> CHR ''-'')))"

definition well_formed :: "(string \<times> string) list \<Rightarrow> string \<Rightarrow> bool" where
  "well_formed entries tail =
     (list_all (\<lambda>(gap, key). is_gap gap \<and> is_key key) entries \<and> CHR '':'' \<notin> set tail)"

definition prev_ok :: "char option \<Rightarrow> bool" where
  "prev_ok p = (case p of None \<Rightarrow> True | Some c \<Rightarrow> \<not> is_word_char c \<and> c \<noteq> CHR ''-'')"

section \<open>Properties\<close>

subsection \<open>Removing the excluded suites\<close>

lemma list_remove_remove1:
  "list_remove x xs = (if x \<in> set xs then Inr (remove1 x xs) else Inl ValueError)"
  by (induction xs) auto

lemma list_remove_first_occurrence:
  "x \<notin> set ys \<Longrightarrow> list_remove x (ys @ x # zs) = Inr (ys @ zs)"
  by (induction ys) auto

lemma remove_excluded_foldl:
  "remove_excluded ts p = Inr q \<Longrightarrow> q = foldl (\<lambda>xs t. remove1 t xs) p ts"
  by (induction ts arbitrary: p) (auto simp: list_remove_remove1 split: if_splits)

lemma remove_excluded_length:
  "remove_excluded ts p = Inr q \<Longrightarrow> length q + length ts = length p"
proof (induction ts arbitrary: p)
  case Nil
  then show ?case by simp
next
  case (Cons t ts)
  from Cons.prems have mem: "t \<in> set p" and rest: "remove_excluded ts (remove1 t p) = Inr q"
    by (auto simp: list_remove_remove1 split: if_splits)
  from Cons.IH [OF rest] have "length q + length ts = length (remove1 t p)" .
  with mem show ?case by (simp add: length_remove1) (cases p; simp)
qed

lemma remove_excluded_missing:
  "t \<in> set ts \<Longrightarrow> t \<notin> set p \<Longrightarrow> remove_excluded ts p = Inl ValueError"
proof (induction ts arbitrary: p)
  case Nil
  then show ?case by simp
next
  case (Cons u ts)
  show ?case
  proof (cases "u \<in> set p")
    case False
    then show ?thesis by (simp add: list_remove_remove1)
  next
    case True
    with Cons.prems have "t \<noteq> u" by auto
    with Cons.prems have "t \<in> set ts" "t \<notin> set (remove1 u p)"
      using notin_set_remove1 by auto
    from Cons.IH [OF this] True show ?thesis by (simp add: list_remove_remove1)
  qed
qed

lemma remove_excluded_present:
  "distinct ts \<Longrightarrow> set ts \<subseteq> set p \<Longrightarrow>
   remove_excluded ts p = Inr (foldl (\<lambda>xs t. remove1 t xs) p ts)"
proof (induction ts arbitrary: p)
  case Nil
  then show ?case by simp
next
  case (Cons u ts)
  have "x \<in> set (remove1 u p)" if "x \<in> set ts" for x
  proof -
    from that Cons.prems have "x \<noteq> u" "x \<in> set p" by auto
    then show ?thesis by (simp add: in_set_remove1)
  qed
  then have "set ts \<subseteq> set (remove1 u p)" by blast
  with Cons show ?case by (simp add: list_remove_remove1)
qed

lemma distinct_excluded: "distinct TEST_SUITES_NOT_RUN_ON_TRAVIS"
  by (simp add: TEST_SUITES_NOT_RUN_ON_TRAVIS_def)



lemma main_checks_adjusted:
  assumes "remove_excluded TEST_SUITES_NOT_RUN_ON_TRAVIS p = Inr adjusted"
  shows "main_checks p j s =
     (if j = [] then
            ([], Inl (Exception
              ''The e2e test suites that have been extracted from jobs section from travis.ci are empty.''))
          else if s = [] then
            ([], Inl (Exception
              ''The e2e test suites that have been extracted from script section from travis.ci are empty.''))
          else if adjusted = [] then
            ([], Inl (Exception
              ''The e2e test suites that have been extracted from protractor.conf.js are empty.''))
          else if ''explorationImprovementsTab'' \<notin> set j then
            ([], Inl (Exception
              ''explorationImprovementsTab is expected to be in the e2e test suites extracted from the jobs section of .travis.yml file, but it is missing.''))
          else if ''explorationImprovementsTab'' \<notin> set s then
            ([], Inl (Exception
              ''explorationImprovementsTab is expected to be in the e2e test suites extracted from the script section of .travis.yml file, but it is missing.''))
          else if ''explorationImprovementsTab'' \<notin> set adjusted then
            ([], Inl (Exception
              ''explorationImprovementsTab is expected to be in the e2e test suites extracted from the protractor.conf.js file, but it is missing.''))
          else if \<not> (adjusted = j \<and> j = s) then
            ([], Inl (Exception
              ''Protractor test suites and Travis Ci test suites are not in sync.''))
          else ([''Done!''], Inr ()))"
  unfolding main_checks_def SAMPLE_TEST_SUITE_THAT_IS_KNOWN_TO_EXIST_def using assms by simp


lemma main_checks_removal_error:
  assumes "remove_excluded TEST_SUITES_NOT_RUN_ON_TRAVIS p = Inl e"
  shows "main_checks p j s = ([], Inl e)"
  unfolding main_checks_def using assms by simp

lemma main_checks_same_lists_never_pass: "snd (main_checks p p p) \<noteq> Inr ()"
proof (cases "remove_excluded TEST_SUITES_NOT_RUN_ON_TRAVIS p")
  case (Inl e)
  then show ?thesis by (simp add: main_checks_removal_error)
next
  case (Inr adjusted)
  from remove_excluded_length [OF Inr] have "adjusted \<noteq> p"
    by (auto simp: TEST_SUITES_NOT_RUN_ON_TRAVIS_def)
  then show ?thesis by (simp add: main_checks_adjusted [OF Inr])
qed


subsection \<open>The checks of main\<close>

text \<open>
  C1 (as amended). The three lists of the claim are the lists main compares, the
  test-runner list being the one left after the removal loop: when the loop ends
  normally, and the list it leaves, the jobs list and the script list are pairwise equal,
  non-empty and contain \<^verbatim>\<open>explorationImprovementsTab\<close>, the checks raise nothing and
  print \<^verbatim>\<open>Done!\<close>.
\<close>

theorem validator_passes_on_equal_adjusted_lists:
  assumes "remove_excluded TEST_SUITES_NOT_RUN_ON_TRAVIS p = Inr adjusted"
    and "adjusted = j" and "j = s" and "adjusted = s"
    and "adjusted \<noteq> []" and "j \<noteq> []" and "s \<noteq> []"
    and "''explorationImprovementsTab'' \<in> set adjusted"
    and "''explorationImprovementsTab'' \<in> set j"
    and "''explorationImprovementsTab'' \<in> set s"
  shows "main_checks p j s = ([''Done!''], Inr ())"
  using assms(2-) by (simp add: main_checks_adjusted [OF assms(1)])

text \<open>
  The hypotheses of C1 hold for the sorted list of the sentinel and the four excluded names.
\<close>

theorem validator_passes_on_equal_adjusted_lists_witness:
  "remove_excluded TEST_SUITES_NOT_RUN_ON_TRAVIS
      [''classroomPageFileUploadFeatures'', ''explorationImprovementsTab'', ''fileUploadFeatures'',
       ''full'', ''topicAndStoryEditorFileUploadFeatures''] = Inr [''explorationImprovementsTab'']
   \<and> main_checks
      [''classroomPageFileUploadFeatures'', ''explorationImprovementsTab'', ''fileUploadFeatures'',
       ''full'', ''topicAndStoryEditorFileUploadFeatures'']
      [''explorationImprovementsTab''] [''explorationImprovementsTab''] = ([''Done!''], Inr ())"
proof -
  have h: "remove_excluded TEST_SUITES_NOT_RUN_ON_TRAVIS
      [''classroomPageFileUploadFeatures'', ''explorationImprovementsTab'', ''fileUploadFeatures'',
       ''full'', ''topicAndStoryEditorFileUploadFeatures''] = Inr [''explorationImprovementsTab'']"
    by (simp add: TEST_SUITES_NOT_RUN_ON_TRAVIS_def)
  from validator_passes_on_equal_adjusted_lists [OF h, of "[''explorationImprovementsTab'']" "[''explorationImprovementsTab'']"]
  show ?thesis using h by simp
qed

text \<open>
  C1 as stated, on the three lists as extracted, fails: the three lists below are equal,
  non-empty and contain the sentinel, and the removal of \<^verbatim>\<open>full\<close> raises ValueError.
  Three equal extracted lists never pass (\<open>main_checks_same_lists_never_pass\<close>).
\<close>

theorem validator_equal_unadjusted_lists_counterexample:
  "[''explorationImprovementsTab''] \<noteq> ([] :: string list)
   \<and> ''explorationImprovementsTab'' \<in> set [''explorationImprovementsTab'']
   \<and> main_checks [''explorationImprovementsTab''] [''explorationImprovementsTab'']
        [''explorationImprovementsTab''] = ([], Inl ValueError)"
  by (simp add: main_checks_def TEST_SUITES_NOT_RUN_ON_TRAVIS_def)


text \<open>
  C2 (as amended). When the removal loop ends normally and two of the three lists main
  compares differ, the checks raise an exception; it is the "not in sync" exception when
  the three lists are non-empty and contain the sentinel (otherwise one of the earlier
  checks raises its own).
\<close>

theorem validator_not_in_sync:
  assumes "remove_excluded TEST_SUITES_NOT_RUN_ON_TRAVIS p = Inr adjusted"
    and "adjusted \<noteq> j \<or> j \<noteq> s \<or> adjusted \<noteq> s"
  shows "snd (main_checks p j s) \<noteq> Inr ()
    \<and> (j \<noteq> [] \<and> s \<noteq> [] \<and> adjusted \<noteq> []
       \<and> ''explorationImprovementsTab'' \<in> set j
       \<and> ''explorationImprovementsTab'' \<in> set s
       \<and> ''explorationImprovementsTab'' \<in> set adjusted
       \<longrightarrow> main_checks p j s =
             ([], Inl (Exception ''Protractor test suites and Travis Ci test suites are not in sync.'')))"
  using assms(2) by (auto simp add: main_checks_adjusted [OF assms(1)])

text \<open>The hypotheses of C2 hold when the jobs list has one suite more.\<close>

theorem validator_not_in_sync_witness:
  "snd (main_checks
      [''classroomPageFileUploadFeatures'', ''explorationImprovementsTab'', ''fileUploadFeatures'',
       ''full'', ''topicAndStoryEditorFileUploadFeatures'']
      [''explorationImprovementsTab'', ''users''] [''explorationImprovementsTab'']) \<noteq> Inr ()
   \<and> main_checks
      [''classroomPageFileUploadFeatures'', ''explorationImprovementsTab'', ''fileUploadFeatures'',
       ''full'', ''topicAndStoryEditorFileUploadFeatures'']
      [''explorationImprovementsTab'', ''users''] [''explorationImprovementsTab''] =
        ([], Inl (Exception ''Protractor test suites and Travis Ci test suites are not in sync.''))"
proof -
  have h: "remove_excluded TEST_SUITES_NOT_RUN_ON_TRAVIS
      [''classroomPageFileUploadFeatures'', ''explorationImprovementsTab'', ''fileUploadFeatures'',
       ''full'', ''topicAndStoryEditorFileUploadFeatures''] = Inr [''explorationImprovementsTab'']"
    by (simp add: TEST_SUITES_NOT_RUN_ON_TRAVIS_def)
  have d: "[''explorationImprovementsTab''] \<noteq> [''explorationImprovementsTab'', ''users'']
     \<or> [''explorationImprovementsTab'', ''users''] \<noteq> [''explorationImprovementsTab'']
     \<or> [''explorationImprovementsTab''] \<noteq> [''explorationImprovementsTab'']"
    by simp
  from validator_not_in_sync [OF h d] show ?thesis by simp
qed

text \<open>
  C2 as stated fails: the script list is empty, so it differs from the other two, and
  the exception is the one of the emptiness check of line 138.
\<close>

theorem validator_not_in_sync_counterexample:
  "remove_excluded TEST_SUITES_NOT_RUN_ON_TRAVIS
      [''classroomPageFileUploadFeatures'', ''explorationImprovementsTab'', ''fileUploadFeatures'',
       ''full'', ''topicAndStoryEditorFileUploadFeatures''] = Inr [''explorationImprovementsTab'']
   \<and> [''explorationImprovementsTab''] \<noteq> ([] :: string list)
   \<and> main_checks
      [''classroomPageFileUploadFeatures'', ''explorationImprovementsTab'', ''fileUploadFeatures'',
       ''full'', ''topicAndStoryEditorFileUploadFeatures'']
      [''explorationImprovementsTab''] [] =
        ([], Inl (Exception
          ''The e2e test suites that have been extracted from script section from travis.ci are empty.''))
   \<and> main_checks
      [''classroomPageFileUploadFeatures'', ''explorationImprovementsTab'', ''fileUploadFeatures'',
       ''full'', ''topicAndStoryEditorFileUploadFeatures'']
      [''explorationImprovementsTab''] [] \<noteq>
        ([], Inl (Exception ''Protractor test suites and Travis Ci test suites are not in sync.''))"
  by (simp add: main_checks_def TEST_SUITES_NOT_RUN_ON_TRAVIS_def
        SAMPLE_TEST_SUITE_THAT_IS_KNOWN_TO_EXIST_def)

text \<open>
  C6 (as amended). For a test-runner list that holds all four excluded names, when
  removing the first occurrence of each of them leaves the jobs list, the jobs list equals
  the script list and it contains the sentinel, the checks raise nothing and print
  \<^verbatim>\<open>Done!\<close>.
\<close>

theorem validator_passes_after_allow_list_removal:
  assumes "set TEST_SUITES_NOT_RUN_ON_TRAVIS \<subseteq> set p"
    and "foldl (\<lambda>xs t. remove1 t xs) p TEST_SUITES_NOT_RUN_ON_TRAVIS = j"
    and "j = s"
    and "''explorationImprovementsTab'' \<in> set j"
  shows "main_checks p j s = ([''Done!''], Inr ())"
proof -
  from remove_excluded_present [OF distinct_excluded assms(1)] assms(2)
  have "remove_excluded TEST_SUITES_NOT_RUN_ON_TRAVIS p = Inr j" by simp
  from main_checks_adjusted [OF this] assms(3,4) show ?thesis by auto
qed

text \<open>The hypotheses of C6 hold for a test-runner list with the four names and two suites.\<close>

theorem validator_passes_after_allow_list_removal_witness:
  "main_checks
      [''classroomPageFileUploadFeatures'', ''explorationImprovementsTab'', ''fileUploadFeatures'',
       ''full'', ''topicAndStoryEditorFileUploadFeatures'', ''users'']
      [''explorationImprovementsTab'', ''users''] [''explorationImprovementsTab'', ''users''] =
        ([''Done!''], Inr ())"
  using validator_passes_after_allow_list_removal
    [of "[''classroomPageFileUploadFeatures'', ''explorationImprovementsTab'', ''fileUploadFeatures'',
       ''full'', ''topicAndStoryEditorFileUploadFeatures'', ''users'']"
       "[''explorationImprovementsTab'', ''users'']" "[''explorationImprovementsTab'', ''users'']"]
  by (simp add: TEST_SUITES_NOT_RUN_ON_TRAVIS_def)

text \<open>
  C6 as stated fails: the test-runner list holds the excluded name \<^verbatim>\<open>full\<close>, absent
  from the other two lists, and dropping the excluded names from it leaves the other two
  lists; the removal of \<^verbatim>\<open>classroomPageFileUploadFeatures\<close> raises ValueError.
\<close>

theorem validator_allow_listed_name_counterexample:
  "''full'' \<in> set TEST_SUITES_NOT_RUN_ON_TRAVIS
   \<and> ''full'' \<in> set [''explorationImprovementsTab'', ''full'']
   \<and> ''full'' \<notin> set [''explorationImprovementsTab'']
   \<and> filter (\<lambda>x. x \<notin> set TEST_SUITES_NOT_RUN_ON_TRAVIS) [''explorationImprovementsTab'', ''full'']
       = [''explorationImprovementsTab'']
   \<and> foldl (\<lambda>xs t. remove1 t xs) [''explorationImprovementsTab'', ''full'']
        TEST_SUITES_NOT_RUN_ON_TRAVIS = [''explorationImprovementsTab'']
   \<and> main_checks [''explorationImprovementsTab'', ''full''] [''explorationImprovementsTab'']
        [''explorationImprovementsTab''] = ([], Inl ValueError)"
  by (simp add: main_checks_def TEST_SUITES_NOT_RUN_ON_TRAVIS_def)




text \<open>
  C8 (as amended). When the removal loop ends normally, the three lists are non-empty and
  the sentinel is absent from at least one of them, the checks raise the exception of
  the first sentinel check that fails, in the order jobs, script, test runner; its
  message names that source.
\<close>

theorem validator_names_missing_sentinel:
  assumes "remove_excluded TEST_SUITES_NOT_RUN_ON_TRAVIS p = Inr adjusted"
    and "j \<noteq> []" and "s \<noteq> []" and "adjusted \<noteq> []"
    and "''explorationImprovementsTab'' \<notin> set j \<or> ''explorationImprovementsTab'' \<notin> set s
         \<or> ''explorationImprovementsTab'' \<notin> set adjusted"
  shows "main_checks p j s =
     ([], Inl (Exception
        (''explorationImprovementsTab is expected to be in the e2e test suites extracted from the '' @
         (if ''explorationImprovementsTab'' \<notin> set j then ''jobs section of .travis.yml''
          else if ''explorationImprovementsTab'' \<notin> set s then ''script section of .travis.yml''
          else ''protractor.conf.js'') @
         '' file, but it is missing.'')))"
  using assms(2-) by (auto simp add: main_checks_adjusted [OF assms(1)])

text \<open>The hypotheses of C8 hold when the script list lacks the sentinel.\<close>

theorem validator_names_missing_sentinel_witness:
  "main_checks
      [''classroomPageFileUploadFeatures'', ''explorationImprovementsTab'', ''fileUploadFeatures'',
       ''full'', ''topicAndStoryEditorFileUploadFeatures'']
      [''explorationImprovementsTab''] [''users''] =
     ([], Inl (Exception
        ''explorationImprovementsTab is expected to be in the e2e test suites extracted from the script section of .travis.yml file, but it is missing.''))"
proof -
  have h: "remove_excluded TEST_SUITES_NOT_RUN_ON_TRAVIS
      [''classroomPageFileUploadFeatures'', ''explorationImprovementsTab'', ''fileUploadFeatures'',
       ''full'', ''topicAndStoryEditorFileUploadFeatures''] = Inr [''explorationImprovementsTab'']"
    by (simp add: TEST_SUITES_NOT_RUN_ON_TRAVIS_def)
  from validator_names_missing_sentinel [OF h, of "[''explorationImprovementsTab'']" "[''users'']"]
  show ?thesis by simp
qed

text \<open>
  C8 as stated fails: the sentinel is absent from the jobs list because that list is
  empty, and the exception is the one of the emptiness check of line 135, not of a
  sentinel check.
\<close>

theorem validator_sentinel_absent_from_empty_list_counterexample:
  "remove_excluded TEST_SUITES_NOT_RUN_ON_TRAVIS
      [''classroomPageFileUploadFeatures'', ''explorationImprovementsTab'', ''fileUploadFeatures'',
       ''full'', ''topicAndStoryEditorFileUploadFeatures''] = Inr [''explorationImprovementsTab'']
   \<and> ''explorationImprovementsTab'' \<notin> set ([] :: string list)
   \<and> main_checks
      [''classroomPageFileUploadFeatures'', ''explorationImprovementsTab'', ''fileUploadFeatures'',
       ''full'', ''topicAndStoryEditorFileUploadFeatures'']
      [] [''explorationImprovementsTab''] =
     ([], Inl (Exception
        ''The e2e test suites that have been extracted from jobs section from travis.ci are empty.''))"
  by (simp add: main_checks_def TEST_SUITES_NOT_RUN_ON_TRAVIS_def)

lemma remove_excluded_step:
  "x \<notin> set ys \<Longrightarrow> remove_excluded (x # ts) (ys @ x # zs) = remove_excluded ts (ys @ zs)"
  by (simp add: list_remove_first_occurrence)

text \<open>
  C10. When the test-runner list lacks one of the four excluded names, the checks end
  with the ValueError of the removal loop whatever the other two lists are, so before the
  emptiness, sentinel and equality checks; main, once the three extractions have returned
  their lists, prints its first line and raises that ValueError. When the list holds the
  four names, the loop leaves the list with the first occurrence of each name deleted
  (\<open>remove1\<close> deletes the first occurrence), and that is the list the checks compare:
  the checks pass exactly when it equals the jobs list and the script list and holds the
  sentinel. Each turn of the loop deletes the first occurrence of its name and no other.
\<close>

theorem allow_list_removal_raises_value_error:
  "((\<exists>t\<in>set TEST_SUITES_NOT_RUN_ON_TRAVIS. t \<notin> set p) \<longrightarrow>
       main_checks p j s = ([], Inl ValueError)
     \<and> (get_e2e_suite_names_from_protractor_file config = Inr p
        \<and> get_e2e_suite_names_from_jobs_travis_yml_file conv camel travis = Inr j
        \<and> get_e2e_suite_names_from_script_travis_yml_file conv travis = Inr s
        \<longrightarrow> main conv camel travis config =
              ([''Checking e2e tests are captured in travis.yml...''], Inl ValueError)))
   \<and> (set TEST_SUITES_NOT_RUN_ON_TRAVIS \<subseteq> set p \<longrightarrow>
       remove_excluded TEST_SUITES_NOT_RUN_ON_TRAVIS p
         = Inr (foldl (\<lambda>xs t. remove1 t xs) p TEST_SUITES_NOT_RUN_ON_TRAVIS)
     \<and> (main_checks p j s = ([''Done!''], Inr ()) \<longleftrightarrow>
          foldl (\<lambda>xs t. remove1 t xs) p TEST_SUITES_NOT_RUN_ON_TRAVIS = j \<and> j = s
          \<and> ''explorationImprovementsTab'' \<in> set j))
   \<and> (\<forall>x ts ys zs. x \<notin> set ys \<longrightarrow>
         remove_excluded (x # ts) (ys @ x # zs) = remove_excluded ts (ys @ zs))
   \<and> (\<forall>x ys zs. x \<notin> set ys \<longrightarrow> list_remove x (ys @ x # zs) = Inr (ys @ (zs :: string list)))"
proof -
  have 1: "main_checks p j s = ([], Inl ValueError)
     \<and> (get_e2e_suite_names_from_protractor_file config = Inr p
        \<and> get_e2e_suite_names_from_jobs_travis_yml_file conv camel travis = Inr j
        \<and> get_e2e_suite_names_from_script_travis_yml_file conv travis = Inr s
        \<longrightarrow> main conv camel travis config =
              ([''Checking e2e tests are captured in travis.yml...''], Inl ValueError))"
    if "\<exists>t\<in>set TEST_SUITES_NOT_RUN_ON_TRAVIS. t \<notin> set p"
  proof -
    from that obtain t where "t \<in> set TEST_SUITES_NOT_RUN_ON_TRAVIS" "t \<notin> set p" by blast
    from remove_excluded_missing [OF this]
    have "main_checks p j s = ([], Inl ValueError)"
      by (rule main_checks_removal_error)
    then show ?thesis by (simp add: main_def)
  qed
  have 2: "remove_excluded TEST_SUITES_NOT_RUN_ON_TRAVIS p
         = Inr (foldl (\<lambda>xs t. remove1 t xs) p TEST_SUITES_NOT_RUN_ON_TRAVIS)
     \<and> (main_checks p j s = ([''Done!''], Inr ()) \<longleftrightarrow>
          foldl (\<lambda>xs t. remove1 t xs) p TEST_SUITES_NOT_RUN_ON_TRAVIS = j \<and> j = s
          \<and> ''explorationImprovementsTab'' \<in> set j)"
    if "set TEST_SUITES_NOT_RUN_ON_TRAVIS \<subseteq> set p"
  proof -
    note r = remove_excluded_present [OF distinct_excluded that]
    show ?thesis
      by (rule conjI [OF r]) (auto simp add: main_checks_adjusted [OF r])
  qed
  from 1 2 show ?thesis
    by (simp add: list_remove_first_occurrence)
qed

text \<open>
  The hypotheses of C10 hold for a run of main on files that name the sentinel suite
  only, with the sample helpers, and for a test-runner list where \<^verbatim>\<open>full\<close> occurs twice:
  one \<^verbatim>\<open>full\<close> stays in the list the checks compare.
\<close>

theorem allow_list_removal_raises_value_error_witness:
  "main yaml_str_bytes camel_case_of_snake_case
     (YamlDict
        [(''env'', YamlDict [(''jobs'', YamlStr ''RUN_E2E_TESTS_EXPLORATION_IMPROVEMENTS_TAB=true'')]),
         (''script'', YamlStr (''bash scripts/run_e2e_tests.sh --suite='' @ [CHR 0x22] @
                               ''explorationImprovementsTab'' @ [CHR 0x22]))])
     ''suites = { explorationImprovementsTab: [] }'' =
       ([''Checking e2e tests are captured in travis.yml...''], Inl ValueError)
   \<and> remove_excluded TEST_SUITES_NOT_RUN_ON_TRAVIS
       [''classroomPageFileUploadFeatures'', ''explorationImprovementsTab'', ''fileUploadFeatures'',
        ''full'', ''full'', ''topicAndStoryEditorFileUploadFeatures'']
       = Inr [''explorationImprovementsTab'', ''full'']
   \<and> main_checks
       [''classroomPageFileUploadFeatures'', ''explorationImprovementsTab'', ''fileUploadFeatures'',
        ''full'', ''full'', ''topicAndStoryEditorFileUploadFeatures'']
       [''explorationImprovementsTab'', ''full''] [''explorationImprovementsTab'', ''full'']
       = ([''Done!''], Inr ())
   \<and> remove_excluded [''full'', ''users''] [''users'', ''full'', ''full'']
       = remove_excluded [''users''] [''users'', ''full'']
   \<and> list_remove ''full'' [''users'', ''full'', ''full''] = Inr [''users'', ''full'']"
proof -
  let ?travis = "YamlDict
        [(''env'', YamlDict [(''jobs'', YamlStr ''RUN_E2E_TESTS_EXPLORATION_IMPROVEMENTS_TAB=true'')]),
         (''script'', YamlStr (''bash scripts/run_e2e_tests.sh --suite='' @ [CHR 0x22] @
                               ''explorationImprovementsTab'' @ [CHR 0x22]))]"
  let ?p2 = "[''classroomPageFileUploadFeatures'', ''explorationImprovementsTab'', ''fileUploadFeatures'',
        ''full'', ''full'', ''topicAndStoryEditorFileUploadFeatures'']"
  let ?j2 = "[''explorationImprovementsTab'', ''full'']"
  have p: "get_e2e_suite_names_from_protractor_file ''suites = { explorationImprovementsTab: [] }''
      = Inr [''explorationImprovementsTab'']"
    by (simp add: get_e2e_suite_names_from_protractor_file_def suite_object_regex_def
          key_regex_def match_here_def at_boundary_def is_word_char_def is_lower_def is_upper_def
          is_digit_def findall.simps backtrack.simps)
  have j: "get_e2e_suite_names_from_jobs_travis_yml_file yaml_str_bytes camel_case_of_snake_case ?travis
      = Inr [''explorationImprovementsTab'']"
    by (simp add: get_e2e_suite_names_from_jobs_travis_yml_file_def test_regex_def match_here_def
          is_upper_def lower_def lower_char_def camel_case_of_snake_case_def upper_char_def
          findall.simps backtrack.simps)
  have s: "get_e2e_suite_names_from_script_travis_yml_file yaml_str_bytes ?travis
      = Inr [''explorationImprovementsTab'']"
    by (simp add: get_e2e_suite_names_from_script_travis_yml_file_def e2e_test_suite_regex_def
          match_here_def is_upper_def is_lower_def findall.simps backtrack.simps)
  have m: "\<exists>t\<in>set TEST_SUITES_NOT_RUN_ON_TRAVIS. t \<notin> set [''explorationImprovementsTab'']"
    by (simp add: TEST_SUITES_NOT_RUN_ON_TRAVIS_def)
  note missing = allow_list_removal_raises_value_error
      [of "[''explorationImprovementsTab'']" "[''explorationImprovementsTab'']"
          "[''explorationImprovementsTab'']" "''suites = { explorationImprovementsTab: [] }''"
          yaml_str_bytes camel_case_of_snake_case ?travis]
  from missing m p j s have 1: "main yaml_str_bytes camel_case_of_snake_case ?travis
     ''suites = { explorationImprovementsTab: [] }'' =
       ([''Checking e2e tests are captured in travis.yml...''], Inl ValueError)"
    by blast
  have a: "set TEST_SUITES_NOT_RUN_ON_TRAVIS \<subseteq> set ?p2"
    by (simp add: TEST_SUITES_NOT_RUN_ON_TRAVIS_def)
  have f: "foldl (\<lambda>xs t. remove1 t xs) ?p2 TEST_SUITES_NOT_RUN_ON_TRAVIS = ?j2"
    by (simp add: TEST_SUITES_NOT_RUN_ON_TRAVIS_def)
  note present = allow_list_removal_raises_value_error
      [of ?p2 ?j2 ?j2 "[]" yaml_str_bytes camel_case_of_snake_case ?travis]
  from present a f have 2: "remove_excluded TEST_SUITES_NOT_RUN_ON_TRAVIS ?p2 = Inr ?j2"
    by simp
  from present a f have 3: "main_checks ?p2 ?j2 ?j2 = ([''Done!''], Inr ())"
    by simp
  from present have "''full'' \<notin> set [''users''] \<longrightarrow>
      remove_excluded (''full'' # [''users'']) ([''users''] @ ''full'' # [''full''])
        = remove_excluded [''users''] ([''users''] @ [''full''])"
    by blast
  then have 4: "remove_excluded [''full'', ''users''] [''users'', ''full'', ''full'']
       = remove_excluded [''users''] [''users'', ''full'']"
    by simp
  from present have "''full'' \<notin> set [''users''] \<longrightarrow>
      list_remove ''full'' ([''users''] @ ''full'' # [''full'']) = Inr ([''users''] @ [''full''])"
    by blast
  then have 5: "list_remove ''full'' [''users'', ''full'', ''full''] = Inr [''users'', ''full'']"
    by simp
  from 1 2 3 4 5 show ?thesis by (intro conjI)
qed

subsection \<open>The matcher on a pattern whose group ends at a character outside its class\<close>

lemma strip_prefix_Some: "strip_prefix l s = Some t \<longleftrightarrow> s = l @ t"
  by (induction l s rule: strip_prefix.induct) auto

lemma strip_prefix_None: "strip_prefix l s = None \<longleftrightarrow> (\<forall>t. s \<noteq> l @ t)"
  using strip_prefix_Some [of l s] by (cases "strip_prefix l s") auto

lemma match_atoms_literal:
  "match_atoms (map Lit l) p s =
     (case strip_prefix l s of None \<Rightarrow> None
      | Some t \<Rightarrow> Some (if l = [] then p else Some (last l), t))"
  by (induction l s arbitrary: p rule: strip_prefix.induct) (auto split: option.splits)

lemma backtrack_short:
  assumes "after_group r = [Lit q]" and "\<not> group_class r q"
    and "k < length (takeWhile (group_class r) s)"
  shows "backtrack r k p s = None"
  using assms(3)
proof (induction k)
  case 0
  then have "s \<noteq> []" "group_class r (hd s)"
    by (cases s; auto split: if_splits)+
  with assms(1,2) show ?case by (cases s) (auto simp: backtrack.simps)
next
  case (Suc k)
  let ?n = "length (takeWhile (group_class r) s)"
  from Suc.prems have len: "Suc k < length s"
    using length_takeWhile_le [of "group_class r" s] by simp
  from Suc.prems have "takeWhile (group_class r) s ! Suc k = s ! Suc k"
    by (simp add: takeWhile_nth)
  moreover from Suc.prems have "takeWhile (group_class r) s ! Suc k \<in> set (takeWhile (group_class r) s)"
    by simp
  ultimately have "group_class r (s ! Suc k)"
    using set_takeWhileD by metis
  with assms(2) have ne: "s ! Suc k \<noteq> q" by auto
  from len have "drop (Suc k) s = s ! Suc k # drop (Suc (Suc k)) s"
    by (simp add: Cons_nth_drop_Suc)
  with ne assms(1) have "match_atoms (after_group r) (Some (s ! k)) (drop (Suc k) s) = None"
    by simp
  moreover from Suc have "backtrack r k p s = None" by simp
  ultimately show ?case by (subst backtrack.simps) simp
qed

lemma backtrack_greedy:
  assumes "after_group r = [Lit q]" and "\<not> group_class r q"
  shows "backtrack r (length (takeWhile (group_class r) s)) p s =
     (if group_min r \<le> length (takeWhile (group_class r) s) then
        (case dropWhile (group_class r) s of
           [] \<Rightarrow> None
         | x # rest \<Rightarrow> if x = q then Some (takeWhile (group_class r) s, Some q, rest) else None)
      else None)"
proof -
  let ?n = "length (takeWhile (group_class r) s)"
  have d: "drop ?n s = dropWhile (group_class r) s"
    by (rule dropWhile_eq_drop [symmetric])
  have t: "take ?n s = takeWhile (group_class r) s"
    by (rule takeWhile_eq_take [symmetric])
  have lower: "(case ?n of 0 \<Rightarrow> None | Suc k' \<Rightarrow> backtrack r k' p s) = None"
  proof (cases ?n)
    case 0
    then show ?thesis by (simp only: nat.case)
  next
    case (Suc k')
    then have "k' < ?n" by linarith
    from backtrack_short [OF assms this] Suc show ?thesis by (simp only: nat.case)
  qed
  have "backtrack r ?n p s =
      (if ?n < group_min r then None
       else (case match_atoms [Lit q] (if ?n = 0 then p else Some (s ! (?n - 1)))
                   (dropWhile (group_class r) s) of
               Some (p', rest) \<Rightarrow> Some (takeWhile (group_class r) s, p', rest)
             | None \<Rightarrow> None))"
    by (subst backtrack.simps) (simp only: d t lower assms(1))
  also have "\<dots> =
     (if group_min r \<le> ?n then
        (case dropWhile (group_class r) s of
           [] \<Rightarrow> None
         | x # rest \<Rightarrow> if x = q then Some (takeWhile (group_class r) s, Some q, rest) else None)
      else None)"
    by (auto simp add: not_less simp del: dropWhile_eq_Nil_conv split: list.splits)
  finally show ?thesis .
qed

subsection \<open>Scanning against looking at every position\<close>

lemma every_position_append:
  "every_position f (xs @ y # ys) =
     concat (map (\<lambda>k. case f (drop k xs @ y # ys) of None \<Rightarrow> [] | Some n \<Rightarrow> [n]) [0..<length xs])
     @ every_position f (y # ys)"
proof (induction xs)
  case Nil
  then show ?case by simp
next
  case (Cons x xs)
  have "[0..<length (x # xs)] = 0 # map Suc [0..<length xs]"
    by (simp add: upt_conv_Cons map_Suc_upt del: upt_Suc)
  with Cons show ?case by (simp add: comp_def del: upt_Suc)
qed

lemma every_position_skip:
  assumes "\<And>k. k < length xs \<Longrightarrow> f (drop k xs @ y # ys) = None"
  shows "every_position f (xs @ y # ys) = every_position f (y # ys)"
proof -
  have "map (\<lambda>k. case f (drop k xs @ y # ys) of None \<Rightarrow> [] | Some n \<Rightarrow> [n]) [0..<length xs]
      = map (\<lambda>k. []) [0..<length xs]"
    by (rule map_cong) (simp_all add: assms)
  then show ?thesis by (simp add: every_position_append del: upt_Suc)
qed

lemma set_every_position:
  "set (every_position f s) = {n. \<exists>pre t. s = pre @ t \<and> f t = Some n}"
proof (induction s)
  case Nil
  then show ?case by (auto split: option.splits)
next
  case (Cons c cs)
  have "{n. \<exists>pre t. c # cs = pre @ t \<and> f t = Some n}
      = {n. f (c # cs) = Some n} \<union> {n. \<exists>pre t. cs = pre @ t \<and> f t = Some n}"
    by (auto simp: Cons_eq_append_conv)
  with Cons show ?case by (auto split: option.splits)
qed

lemma findall_every_position:
  assumes none: "\<And>p s. match_here r p s = None \<Longrightarrow> f s = None"
    and some: "\<And>p s g p' rest. match_here r p s = Some (g, p', rest) \<Longrightarrow>
        f s = Some g \<and> length rest < length s \<and> every_position f s = g # every_position f rest"
  shows "findall r p s = every_position f s"
proof (induction "length s" arbitrary: p s rule: less_induct)
  case less
  show ?case
  proof (cases "match_here r p s")
    case None
    note n = none [OF None]
    show ?thesis
    proof (cases s)
      case Nil
      with None n show ?thesis by (subst findall.simps) simp
    next
      case (Cons c cs)
      then have "findall r (Some c) cs = every_position f cs"
        by (intro less) simp
      with None n Cons show ?thesis by (subst findall.simps) simp
    qed
  next
    case (Some m)
    obtain g p' rest where m: "m = (g, p', rest)" by (cases m)
    from some [of p s g p' rest] Some m
    have f: "f s = Some g" and l: "length rest < length s"
      and e: "every_position f s = g # every_position f rest" by auto
    from l have "findall r p' rest = every_position f rest" by (rule less)
    with Some m l e show ?thesis by (subst findall.simps) simp
  qed
qed

subsection \<open>The pattern of the jobs section\<close>

lemma strip_prefix_class_run:
  assumes "\<forall>c\<in>set g. cls c" and "\<exists>c\<in>set l. \<not> cls c" and "q \<notin> set l"
  shows "strip_prefix l (g @ q # rest) = None"
proof (rule ccontr)
  assume "strip_prefix l (g @ q # rest) \<noteq> None"
  then obtain t where "g @ q # rest = l @ t"
    by (auto simp: strip_prefix_Some)
  then consider us where "g = l @ us" | us where "g @ us = l" "q # rest = us @ t"
    by (auto simp: append_eq_append_conv2)
  then show False
  proof cases
    case 1
    with assms(1,2) show False by auto
  next
    case 2
    show False
    proof (cases us)
      case Nil
      with 2 assms(1,2) show False by auto
    next
      case (Cons u us')
      with 2 have "q \<in> set l" by auto
      with assms(3) show False by simp
    qed
  qed
qed

lemma takeWhile_dropWhile_run:
  assumes "\<forall>c\<in>set n. P c" and "\<not> P q"
  shows "takeWhile P (n @ q # rest) = n" and "dropWhile P (n @ q # rest) = q # rest"
  using assms by (simp_all add: takeWhile_append2 dropWhile_append2)

lemma assignment_name_at_Some:
  "assignment_name_at s = Some n \<longleftrightarrow>
     (\<exists>rest. s = ''RUN_E2E_TESTS_'' @ n @ ''='' @ rest \<and> (\<forall>c\<in>set n. is_upper_snake c))"
proof
  assume a: "assignment_name_at s = Some n"
  then obtain t where t: "s = ''RUN_E2E_TESTS_'' @ t"
    by (auto simp: assignment_name_at_def strip_prefix_Some split: option.splits)
  then have sp: "strip_prefix ''RUN_E2E_TESTS_'' s = Some t"
    by (simp only: strip_prefix_Some)
  from a obtain rest where d: "dropWhile is_upper_snake t = CHR ''='' # rest"
    and n: "n = takeWhile is_upper_snake t"
    unfolding assignment_name_at_def sp
    by (auto split: list.splits if_splits simp del: dropWhile_eq_Nil_conv)
  have "t = takeWhile is_upper_snake t @ dropWhile is_upper_snake t" by simp
  with d n have "t = n @ ''='' @ rest" by simp
  moreover from n have "\<forall>c\<in>set n. is_upper_snake c"
    by (auto dest: set_takeWhileD)
  ultimately show "\<exists>rest. s = ''RUN_E2E_TESTS_'' @ n @ ''='' @ rest \<and> (\<forall>c\<in>set n. is_upper_snake c)"
    using t by blast
next
  assume "\<exists>rest. s = ''RUN_E2E_TESTS_'' @ n @ ''='' @ rest \<and> (\<forall>c\<in>set n. is_upper_snake c)"
  then obtain rest where s: "s = ''RUN_E2E_TESTS_'' @ (n @ CHR ''='' # rest)"
    and n: "\<forall>c\<in>set n. is_upper_snake c" by auto
  have q: "\<not> is_upper_snake CHR ''=''"
    by (simp add: is_upper_snake_def is_upper_def)
  from s have sp: "strip_prefix ''RUN_E2E_TESTS_'' s = Some (n @ CHR ''='' # rest)"
    by (simp only: strip_prefix_Some)
  show "assignment_name_at s = Some n"
    unfolding assignment_name_at_def sp
    by (simp add: takeWhile_dropWhile_run [OF n q])
qed

lemma assignment_name_at_first:
  assumes "assignment_name_at s \<noteq> None"
  shows "\<exists>t. s = CHR ''R'' # t"
proof -
  from assms obtain t where "strip_prefix ''RUN_E2E_TESTS_'' s = Some t"
    by (auto simp: assignment_name_at_def split: option.splits)
  then show ?thesis by (simp add: strip_prefix_Some)
qed

lemma assignment_name_at_in_run:
  assumes "\<forall>c\<in>set g. is_upper_snake c"
  shows "assignment_name_at (g @ CHR ''='' # rest) = None"
proof -
  have "\<exists>c\<in>set ''RUN_E2E_TESTS_''. \<not> is_upper_snake c"
    by (rule bexI [of _ "CHR ''2''"]) (simp_all add: is_upper_snake_def is_upper_def)
  moreover have "CHR ''='' \<notin> set ''RUN_E2E_TESTS_''" by simp
  ultimately have "strip_prefix ''RUN_E2E_TESTS_'' (g @ CHR ''='' # rest) = None"
    using assms by (intro strip_prefix_class_run [where cls = is_upper_snake]) 
  then show ?thesis by (simp add: assignment_name_at_def)
qed

lemma first_char_skip:
  assumes "\<And>t. f t \<noteq> None \<Longrightarrow> \<exists>t'. t = a # t'" and "a \<notin> set u" and "k < length u"
  shows "f (drop k (u @ n) @ w) = None"
proof -
  from assms(3) obtain x xs where d: "drop k u = x # xs"
    by (cases "drop k u") auto
  then have "x \<in> set u" by (metis in_set_dropD list.set_intros(1))
  with assms(2) have "x \<noteq> a" by auto
  moreover from assms(3) d have e: "drop k (u @ n) @ w = x # xs @ n @ w" by simp
  ultimately have "\<not> (\<exists>t'. drop k (u @ n) @ w = a # t')" by simp
  with assms(1) [of "drop k (u @ n) @ w"] show ?thesis by blast
qed

lemma drop_past_append: "\<not> k < length u \<Longrightarrow> drop k (u @ n) = drop (k - length u) n"
  by simp

lemma assignment_names_no_overlap:
  assumes "\<forall>c\<in>set n. is_upper_snake c"
  shows "every_position assignment_name_at (''RUN_E2E_TESTS_'' @ n @ ''='' @ rest)
       = n # every_position assignment_name_at rest"
proof -
  let ?f = assignment_name_at
  let ?u = "''UN_E2E_TESTS_''"
  have first: "?f (''RUN_E2E_TESTS_'' @ n @ ''='' @ rest) = Some n"
    using assms by (subst assignment_name_at_Some) blast
  have skip: "?f (drop k (?u @ n) @ CHR ''='' # rest) = None" if "k < length (?u @ n)" for k
  proof (cases "k < length ?u")
    case True
    have "CHR ''R'' \<notin> set ?u" by simp
    from first_char_skip [OF assignment_name_at_first this True]
    show ?thesis .
  next
    case False
    then have "drop k (?u @ n) = drop (k - length ?u) n" by (rule drop_past_append)
    moreover have "\<forall>c\<in>set (drop (k - length ?u) n). is_upper_snake c"
      using assms by (auto dest: in_set_dropD)
    ultimately show ?thesis by (simp only: assignment_name_at_in_run)
  qed
  have eq: "?f (CHR ''='' # rest) = None"
    by (simp add: assignment_name_at_def)
  have "every_position ?f (''RUN_E2E_TESTS_'' @ n @ ''='' @ rest)
      = every_position ?f (CHR ''R'' # ((?u @ n) @ CHR ''='' # rest))" by simp
  also have "\<dots> = n # every_position ?f ((?u @ n) @ CHR ''='' # rest)"
    using first by (simp only: every_position.simps) simp
  also have "every_position ?f ((?u @ n) @ CHR ''='' # rest) = every_position ?f (CHR ''='' # rest)"
    by (rule every_position_skip) (rule skip)
  also have "\<dots> = every_position ?f rest"
    by (simp add: eq)
  finally show ?thesis .
qed

lemma match_here_test_regex:
  "match_here test_regex p s =
     (case assignment_name_at s of
        None \<Rightarrow> None
      | Some n \<Rightarrow> Some (n, Some CHR ''='', drop (length ''RUN_E2E_TESTS_'' + length n + 1) s))"
proof -
  have cls: "group_class test_regex = is_upper_snake"
    by (simp add: test_regex_def is_upper_snake_def fun_eq_iff)
  have a: "after_group test_regex = [Lit CHR ''='']" by (simp add: test_regex_def)
  have q: "\<not> group_class test_regex CHR ''=''"
    by (simp add: test_regex_def is_upper_def)
  have m: "group_min test_regex = 0" by (simp add: test_regex_def)
  have b: "before_group test_regex = map Lit ''RUN_E2E_TESTS_''" by (simp add: test_regex_def)
  show ?thesis
  proof (cases "strip_prefix ''RUN_E2E_TESTS_'' s")
    case None
    then show ?thesis
      by (simp only: match_here_def b match_atoms_literal assignment_name_at_def option.case)
  next
    case (Some t)
    then have s: "s = ''RUN_E2E_TESTS_'' @ t" by (simp only: strip_prefix_Some)
    have "match_here test_regex p s =
        backtrack test_regex (length (takeWhile (group_class test_regex) t)) (Some CHR ''_'') t"
      by (simp only: match_here_def b match_atoms_literal Some option.case prod.case) simp
    also have "\<dots> =
       (if group_min test_regex \<le> length (takeWhile (group_class test_regex) t) then
        (case dropWhile (group_class test_regex) t of
           [] \<Rightarrow> None
         | x # rest \<Rightarrow> if x = CHR ''='' then Some (takeWhile (group_class test_regex) t, Some CHR ''='', rest) else None)
        else None)"
      by (rule backtrack_greedy [OF a q])
    also have "\<dots> = (case dropWhile is_upper_snake t of [] \<Rightarrow> None
         | x # rest \<Rightarrow> if x = CHR ''='' then Some (takeWhile is_upper_snake t, Some CHR ''='', rest) else None)"
      by (simp only: m cls) simp
    also have "\<dots> = (case assignment_name_at s of
        None \<Rightarrow> None
      | Some n \<Rightarrow> Some (n, Some CHR ''='', drop (length ''RUN_E2E_TESTS_'' + length n + 1) s))"
    proof (cases "dropWhile is_upper_snake t")
      case Nil
      then show ?thesis by (simp add: assignment_name_at_def Some del: dropWhile_eq_Nil_conv)
    next
      case (Cons x rest)
      have "t = takeWhile is_upper_snake t @ x # rest"
        using Cons takeWhile_dropWhile_id [of is_upper_snake t] by simp
      then have "drop (Suc (length (takeWhile is_upper_snake t))) t = rest"
        by (metis append_eq_conv_conj drop_Suc_Cons drop_drop plus_1_eq_Suc drop0 add.commute)
      with Cons show ?thesis
        by (simp add: assignment_name_at_def Some s)
    qed
    finally show ?thesis .
  qed
qed

lemma findall_test_regex: "findall test_regex p s = assignment_names s"
  unfolding assignment_names_def
proof (rule findall_every_position)
  fix p s
  assume "match_here test_regex p s = None"
  then show "assignment_name_at s = None"
    by (simp add: match_here_test_regex split: option.splits)
next
  fix p s g p' rest
  assume m: "match_here test_regex p s = Some (g, p', rest)"
  then have a: "assignment_name_at s = Some g"
    and r: "rest = drop (length ''RUN_E2E_TESTS_'' + length g + 1) s"
    by (auto simp add: match_here_test_regex split: option.splits)
  from a obtain rest' where s: "s = ''RUN_E2E_TESTS_'' @ g @ ''='' @ rest'"
    and g: "\<forall>c\<in>set g. is_upper_snake c"
    by (auto simp: assignment_name_at_Some)
  from r s have "rest = rest'" by simp
  with s g a show "assignment_name_at s = Some g \<and> length rest < length s \<and>
      every_position assignment_name_at s = g # every_position assignment_name_at rest"
    using assignment_names_no_overlap [OF g, of rest'] by simp
qed

subsection \<open>The pattern of the script section\<close>

lemma match_atoms_append:
  "match_atoms (as @ bs) p s =
     (case match_atoms as p s of None \<Rightarrow> None | Some (p', s') \<Rightarrow> match_atoms bs p' s')"
  by (induction as p s rule: match_atoms.induct) (auto split: list.splits)

lemma suite_argument_at_Some:
  "suite_argument_at s = Some n \<longleftrightarrow>
     (\<exists>d rest. s = ''bash scripts/run_e2e_tests'' @ d # ''sh --suite='' @ [CHR 0x22] @ n @ [CHR 0x22] @ rest
        \<and> d \<noteq> CHR 0x0A \<and> (\<forall>c\<in>set n. is_suite_name_char c))"
proof
  define l1 where "l1 = ''bash scripts/run_e2e_tests''"
  define l2 where "l2 = ''sh --suite='' @ [CHR 0x22]"
  assume a: "suite_argument_at s = Some n"
  then obtain t0 where sp0: "strip_prefix l1 s = Some t0"
    by (auto simp: suite_argument_at_def l1_def split: option.splits)
  with a obtain d t where t0: "t0 = d # t" and d: "d \<noteq> CHR 0x0A"
    unfolding suite_argument_at_def l1_def [symmetric]
    by (auto split: list.splits if_splits)
  with a sp0 obtain u where sp1: "strip_prefix l2 t = Some u"
    unfolding suite_argument_at_def l1_def [symmetric] l2_def [symmetric]
    by (auto split: option.splits)
  from a sp0 t0 d sp1 obtain rest where dw: "dropWhile is_suite_name_char u = CHR 0x22 # rest"
    and n: "n = takeWhile is_suite_name_char u"
    unfolding suite_argument_at_def l1_def [symmetric] l2_def [symmetric]
    by (auto split: list.splits if_splits simp del: dropWhile_eq_Nil_conv)
  have "u = takeWhile is_suite_name_char u @ dropWhile is_suite_name_char u" by simp
  with dw n have u: "u = n @ [CHR 0x22] @ rest" by simp
  from sp0 sp1 t0 u have "s = l1 @ d # l2 @ n @ [CHR 0x22] @ rest"
    by (simp add: strip_prefix_Some)
  moreover from n have "\<forall>c\<in>set n. is_suite_name_char c"
    by (auto dest: set_takeWhileD)
  ultimately show "\<exists>d rest. s = ''bash scripts/run_e2e_tests'' @ d # ''sh --suite='' @ [CHR 0x22] @ n @ [CHR 0x22] @ rest
        \<and> d \<noteq> CHR 0x0A \<and> (\<forall>c\<in>set n. is_suite_name_char c)"
    using d unfolding l1_def l2_def by (metis append.assoc)
next
  define l1 where "l1 = ''bash scripts/run_e2e_tests''"
  define l2 where "l2 = ''sh --suite='' @ [CHR 0x22]"
  assume "\<exists>d rest. s = ''bash scripts/run_e2e_tests'' @ d # ''sh --suite='' @ [CHR 0x22] @ n @ [CHR 0x22] @ rest
        \<and> d \<noteq> CHR 0x0A \<and> (\<forall>c\<in>set n. is_suite_name_char c)"
  then obtain d rest where s: "s = l1 @ d # l2 @ (n @ CHR 0x22 # rest)"
    and d: "d \<noteq> CHR 0x0A" and n: "\<forall>c\<in>set n. is_suite_name_char c"
    unfolding l1_def l2_def by auto
  have q: "\<not> is_suite_name_char (CHR 0x22)"
    by (simp add: is_suite_name_char_def is_upper_def is_lower_def)
  from s have sp0: "strip_prefix l1 s = Some (d # l2 @ (n @ CHR 0x22 # rest))"
    by (simp only: strip_prefix_Some)
  have sp1: "strip_prefix l2 (l2 @ (n @ CHR 0x22 # rest)) = Some (n @ CHR 0x22 # rest)"
    by (simp only: strip_prefix_Some)
  show "suite_argument_at s = Some n"
    unfolding suite_argument_at_def l1_def [symmetric] l2_def [symmetric] sp0
    using d by (simp add: sp1 takeWhile_dropWhile_run [OF n q])
qed


lemma first_char_skip_tail:
  assumes "\<And>t. f t \<noteq> None \<Longrightarrow> \<exists>t'. t = a # t'" and "a \<notin> set u" and "k < length u"
  shows "f (drop k u @ w) = None"
  using first_char_skip [OF assms, where n = "[]" and w = w] by simp

lemma suite_argument_at_first:
  assumes "suite_argument_at s \<noteq> None"
  shows "\<exists>t. s = CHR ''b'' # t"
proof -
  from assms obtain t where "strip_prefix ''bash scripts/run_e2e_tests'' s = Some t"
    by (auto simp: suite_argument_at_def split: option.splits)
  then show ?thesis by (simp add: strip_prefix_Some)
qed

lemma suite_argument_at_in_run:
  assumes "\<forall>c\<in>set g. is_suite_name_char c"
  shows "suite_argument_at (g @ CHR 0x22 # rest) = None"
proof -
  have "\<exists>c\<in>set ''bash scripts/run_e2e_tests''. \<not> is_suite_name_char c"
    by (rule bexI [of _ "CHR '' ''"]) (simp_all add: is_suite_name_char_def is_upper_def is_lower_def)
  moreover have "CHR 0x22 \<notin> set ''bash scripts/run_e2e_tests''" by simp
  ultimately have "strip_prefix ''bash scripts/run_e2e_tests'' (g @ CHR 0x22 # rest) = None"
    using assms by (intro strip_prefix_class_run [where cls = is_suite_name_char])
  then show ?thesis by (simp add: suite_argument_at_def)
qed

lemma suite_arguments_no_overlap:
  assumes "\<forall>c\<in>set n. is_suite_name_char c" and "d \<noteq> CHR 0x0A"
  shows "every_position suite_argument_at
           (''bash scripts/run_e2e_tests'' @ d # ''sh --suite='' @ [CHR 0x22] @ n @ [CHR 0x22] @ rest)
       = n # every_position suite_argument_at rest"
proof -
  let ?f = suite_argument_at
  let ?u = "''ash scripts/run_e2e_tests''"
  let ?l2 = "''sh --suite='' @ [CHR 0x22]"
  let ?y = "(?l2 @ n) @ CHR 0x22 # rest"
  have first: "?f (''bash scripts/run_e2e_tests'' @ d # ''sh --suite='' @ [CHR 0x22] @ n @ [CHR 0x22] @ rest) = Some n"
    using assms by (subst suite_argument_at_Some) blast
  have skip1: "?f (drop k ?u @ d # ?y) = None" if "k < length ?u" for k
  proof -
    have "CHR ''b'' \<notin> set ?u" by simp
    from first_char_skip_tail [OF suite_argument_at_first this that] show ?thesis .
  qed
  have dot: "?f (d # ?y) = None"
    by (simp add: suite_argument_at_def)
  have skip2: "?f (drop k (?l2 @ n) @ CHR 0x22 # rest) = None" if "k < length (?l2 @ n)" for k
  proof (cases "k < length ?l2")
    case True
    have "CHR ''b'' \<notin> set ?l2" by simp
    from first_char_skip [OF suite_argument_at_first this True] show ?thesis .
  next
    case False
    then have "drop k (?l2 @ n) = drop (k - length ?l2) n" by (rule drop_past_append)
    moreover have "\<forall>c\<in>set (drop (k - length ?l2) n). is_suite_name_char c"
      using assms by (auto dest: in_set_dropD)
    ultimately show ?thesis by (simp only: suite_argument_at_in_run)
  qed
  have quote: "?f (CHR 0x22 # rest) = None"
    by (simp add: suite_argument_at_def)
  have "every_position ?f (''bash scripts/run_e2e_tests'' @ d # ''sh --suite='' @ [CHR 0x22] @ n @ [CHR 0x22] @ rest)
      = every_position ?f (CHR ''b'' # (?u @ d # ?y))" by simp
  also have "\<dots> = n # every_position ?f (?u @ d # ?y)"
    using first by (simp only: every_position.simps) simp
  also have "every_position ?f (?u @ d # ?y) = every_position ?f (d # ?y)"
    by (rule every_position_skip) (rule skip1)
  also have "\<dots> = every_position ?f ?y"
    by (simp only: every_position.simps dot) simp
  also have "\<dots> = every_position ?f (CHR 0x22 # rest)"
    by (rule every_position_skip) (rule skip2)
  also have "\<dots> = every_position ?f rest"
    by (simp add: quote)
  finally show ?thesis .
qed

lemma match_here_e2e_test_suite_regex:
  "match_here e2e_test_suite_regex p s =
     (case suite_argument_at s of
        None \<Rightarrow> None
      | Some n \<Rightarrow>
          Some (n, Some (CHR 0x22),
                drop (length ''bash scripts/run_e2e_tests'' + 1 + length (''sh --suite='' @ [CHR 0x22])
                      + length n + 1) s))"
proof -
  define l1 where "l1 = ''bash scripts/run_e2e_tests''"
  define l2 where "l2 = ''sh --suite='' @ [CHR 0x22]"
  let ?r = e2e_test_suite_regex
  have cls: "group_class ?r = is_suite_name_char"
    by (simp add: e2e_test_suite_regex_def is_suite_name_char_def fun_eq_iff)
  have a: "after_group ?r = [Lit (CHR 0x22)]" by (simp add: e2e_test_suite_regex_def)
  have q: "\<not> group_class ?r (CHR 0x22)"
    by (simp add: e2e_test_suite_regex_def is_upper_def is_lower_def)
  have m: "group_min ?r = 0" by (simp add: e2e_test_suite_regex_def)
  have b: "before_group ?r = map Lit l1 @ [AnyChar] @ map Lit l2"
    by (simp add: e2e_test_suite_regex_def l1_def l2_def)
  have l2: "l2 \<noteq> []" "last l2 = CHR 0x22" by (simp_all add: l2_def)
  have before: "match_atoms (before_group ?r) p s =
      (case strip_prefix l1 s of
         None \<Rightarrow> None
       | Some [] \<Rightarrow> None
       | Some (d # t) \<Rightarrow>
           if d = CHR 0x0A then None
           else (case strip_prefix l2 t of None \<Rightarrow> None | Some u \<Rightarrow> Some (Some (CHR 0x22), u)))"
    unfolding b match_atoms_append match_atoms_literal
    by (simp add: l2 split: option.splits list.splits)
  have greedy: "backtrack ?r (length (takeWhile (group_class ?r) u)) p' u =
       (case dropWhile is_suite_name_char u of
          [] \<Rightarrow> None
        | x # rest \<Rightarrow> if x = CHR 0x22 then Some (takeWhile is_suite_name_char u, Some (CHR 0x22), rest) else None)"
    for u p'
    unfolding backtrack_greedy [OF a q] by (simp only: m cls) simp
  have rest: "drop (length l1 + 1 + length l2 + length (takeWhile is_suite_name_char u) + 1) s = rest"
    if "s = l1 @ d # l2 @ u" and "dropWhile is_suite_name_char u = x # rest" for d u x rest
  proof -
    have "u = takeWhile is_suite_name_char u @ x # rest"
      using that(2) takeWhile_dropWhile_id [of is_suite_name_char u] by simp
    then have "s = (l1 @ d # l2 @ takeWhile is_suite_name_char u @ [x]) @ rest"
      using that(1) by simp
    then have "drop (length (l1 @ d # l2 @ takeWhile is_suite_name_char u @ [x])) s = rest"
      by (metis append_eq_conv_conj)
    then show ?thesis by (simp add: add.assoc)
  qed
  have leaf: "(case dropWhile is_suite_name_char u of
          [] \<Rightarrow> None
        | x # rest \<Rightarrow> if x = CHR 0x22 then Some (takeWhile is_suite_name_char u, Some (CHR 0x22), rest) else None)
      = (case (case dropWhile is_suite_name_char u of
                 [] \<Rightarrow> None
               | x # _ \<Rightarrow> if x = CHR 0x22 then Some (takeWhile is_suite_name_char u) else None) of
           None \<Rightarrow> None
         | Some n \<Rightarrow> Some (n, Some (CHR 0x22), drop (length l1 + 1 + length l2 + length n + 1) s))"
    if "s = l1 @ d # l2 @ u" for d u
  proof (cases "dropWhile is_suite_name_char u")
    case Nil
    then show ?thesis by (simp only: list.case option.case)
  next
    case (Cons x r)
    from rest [OF that Cons] Cons show ?thesis
      by (simp only: list.case option.case split: if_splits) simp
  qed
  have "match_here ?r p s =
     (case strip_prefix l1 s of
        None \<Rightarrow> None
      | Some [] \<Rightarrow> None
      | Some (d # t) \<Rightarrow>
          if d = CHR 0x0A then None
          else (case strip_prefix l2 t of
                  None \<Rightarrow> None
                | Some u \<Rightarrow>
                   (case dropWhile is_suite_name_char u of
                      [] \<Rightarrow> None
                    | x # rest \<Rightarrow> if x = CHR 0x22 then Some (takeWhile is_suite_name_char u, Some (CHR 0x22), rest) else None)))"
    unfolding match_here_def before
    by (simp add: greedy split: option.splits list.splits)
  also have "\<dots> = (case suite_argument_at s of
        None \<Rightarrow> None
      | Some n \<Rightarrow> Some (n, Some (CHR 0x22), drop (length l1 + 1 + length l2 + length n + 1) s))"
  proof (cases "strip_prefix l1 s")
    case None
    then show ?thesis
      unfolding suite_argument_at_def l1_def [symmetric] l2_def [symmetric]
      by (simp only: option.case)
  next
    case (Some t0)
    show ?thesis
    proof (cases t0)
      case Nil
      with Some show ?thesis
        unfolding suite_argument_at_def l1_def [symmetric] l2_def [symmetric]
        by (simp only: option.case list.case)
    next
      case (Cons d t)
      show ?thesis
      proof (cases "strip_prefix l2 t")
        case None
        with Some Cons show ?thesis
          unfolding suite_argument_at_def l1_def [symmetric] l2_def [symmetric]
          by (simp only: option.case list.case if_cancel)
      next
        case u: (Some u)
        from Some Cons u have "s = l1 @ d # l2 @ u"
          by (simp add: strip_prefix_Some)
        from leaf [OF this] Some Cons u show ?thesis
          unfolding suite_argument_at_def l1_def [symmetric] l2_def [symmetric]
          by (cases "d = CHR 0x0A") (simp_all only: option.case list.case if_True if_False simp_thms)
      qed
    qed
  qed
  finally show ?thesis unfolding l1_def l2_def .
qed

lemma findall_e2e_test_suite_regex: "findall e2e_test_suite_regex p s = suite_arguments s"
  unfolding suite_arguments_def
proof (rule findall_every_position)
  fix p s
  assume "match_here e2e_test_suite_regex p s = None"
  then show "suite_argument_at s = None"
    by (simp add: match_here_e2e_test_suite_regex split: option.splits)
next
  fix p s g p' rest
  assume m: "match_here e2e_test_suite_regex p s = Some (g, p', rest)"
  then have a: "suite_argument_at s = Some g"
    and r: "rest = drop (length ''bash scripts/run_e2e_tests'' + 1 + length (''sh --suite='' @ [CHR 0x22])
                      + length g + 1) s"
    by (auto simp add: match_here_e2e_test_suite_regex split: option.splits)
  from a obtain d rest' where
    s: "s = ''bash scripts/run_e2e_tests'' @ d # ''sh --suite='' @ [CHR 0x22] @ g @ [CHR 0x22] @ rest'"
    and d: "d \<noteq> CHR 0x0A" and g: "\<forall>c\<in>set g. is_suite_name_char c"
    by (auto simp: suite_argument_at_Some)
  from r s have "rest = rest'" by simp
  with s a show "suite_argument_at s = Some g \<and> length rest < length s \<and>
      every_position suite_argument_at s = g # every_position suite_argument_at rest"
    using suite_arguments_no_overlap [OF g d, of rest'] by simp
qed

subsection \<open>The two extractors of .travis.yml\<close>

lemma set_assignment_names:
  "set (assignment_names s) =
     {n. (\<forall>c\<in>set n. is_upper c \<or> c = CHR ''_'') \<and>
         (\<exists>pre post. s = pre @ ''RUN_E2E_TESTS_'' @ n @ ''='' @ post)}"
  unfolding assignment_names_def set_every_position assignment_name_at_Some is_upper_snake_def
  by auto

lemma set_suite_arguments:
  "set (suite_arguments s) =
     {n. (\<forall>c\<in>set n. is_lower c \<or> is_upper c \<or> c = CHR ''_'' \<or> c = CHR ''-'') \<and>
         (\<exists>pre d post. d \<noteq> CHR 0x0A \<and>
            s = pre @ ''bash scripts/run_e2e_tests'' @ d # ''sh --suite='' @ [CHR 0x22] @ n @ [CHR 0x22] @ post)}"
  unfolding suite_arguments_def set_every_position suite_argument_at_Some is_suite_name_char_def
  by auto

text \<open>
  C3. When the parsed YAML has the jobs string \<open>jobs_str\<close> under \<^verbatim>\<open>env\<close>, \<^verbatim>\<open>jobs\<close>, the
  jobs extractor returns the sorted list of the names of all the assignments
  \<^verbatim>\<open>RUN_E2E_TESTS_<UPPER_SNAKE>=\<close> of the string, each lower-cased and handed to the
  camel-case helper; these names are the runs of upper-case letters and underscores found
  between \<^verbatim>\<open>RUN_E2E_TESTS_\<close> and \<^verbatim>\<open>=\<close> anywhere in the string. In particular, when the
  string contains \<^verbatim>\<open>RUN_E2E_TESTS_FOO_BAR=true\<close> and the helper turns \<^verbatim>\<open>foo_bar\<close> into
  \<^verbatim>\<open>fooBar\<close>, the output contains \<^verbatim>\<open>fooBar\<close>.
\<close>

theorem jobs_extractor_sorted_camel_case_names:
  assumes "dict_get travis_file_content ''env'' = Inr env"
    and "dict_get env ''jobs'' = Inr v"
    and "convert_to_bytes v = Inr jobs_str"
  shows "get_e2e_suite_names_from_jobs_travis_yml_file convert_to_bytes snake_case_to_camel_case
           travis_file_content
         = Inr (sort (map (\<lambda>n. snake_case_to_camel_case (lower n)) (assignment_names jobs_str)))
    \<and> set (assignment_names jobs_str) =
        {n. (\<forall>c\<in>set n. is_upper c \<or> c = CHR ''_'') \<and>
            (\<exists>pre post. jobs_str = pre @ ''RUN_E2E_TESTS_'' @ n @ ''='' @ post)}
    \<and> ((\<exists>pre post. jobs_str = pre @ ''RUN_E2E_TESTS_FOO_BAR=true'' @ post)
         \<and> snake_case_to_camel_case ''foo_bar'' = ''fooBar''
       \<longrightarrow> (\<exists>names. get_e2e_suite_names_from_jobs_travis_yml_file convert_to_bytes
                       snake_case_to_camel_case travis_file_content = Inr names
                   \<and> ''fooBar'' \<in> set names))"
proof -
  let ?names = "sort (map (\<lambda>n. snake_case_to_camel_case (lower n)) (assignment_names jobs_str))"
  have 1: "get_e2e_suite_names_from_jobs_travis_yml_file convert_to_bytes snake_case_to_camel_case
           travis_file_content = Inr ?names"
    by (simp add: get_e2e_suite_names_from_jobs_travis_yml_file_def assms findall_test_regex)
  have 3: "''fooBar'' \<in> set ?names"
    if "\<exists>pre post. jobs_str = pre @ ''RUN_E2E_TESTS_FOO_BAR=true'' @ post"
      and c: "snake_case_to_camel_case ''foo_bar'' = ''fooBar''"
  proof -
    from that(1) obtain pre post where "jobs_str = pre @ ''RUN_E2E_TESTS_'' @ ''FOO_BAR'' @ ''='' @ (''true'' @ post)"
      by auto
    moreover have "\<forall>c\<in>set ''FOO_BAR''. is_upper c \<or> c = CHR ''_''"
      by (simp add: is_upper_def)
    ultimately have "''FOO_BAR'' \<in> set (assignment_names jobs_str)"
      unfolding set_assignment_names by blast
    moreover have "lower ''FOO_BAR'' = ''foo_bar''"
      by (simp add: lower_def lower_char_def)
    ultimately have "snake_case_to_camel_case ''foo_bar'' \<in> set ?names"
      by (force simp: image_iff)
    with c show ?thesis by simp
  qed
  from 1 3 show ?thesis by (simp add: set_assignment_names)
qed

text \<open>The hypotheses of C3 hold for a jobs string with two assignments and the sample helpers.\<close>

theorem jobs_extractor_sorted_camel_case_names_witness:
  "get_e2e_suite_names_from_jobs_travis_yml_file yaml_str_bytes camel_case_of_snake_case
     (YamlDict
        [(''env'', YamlDict
            [(''jobs'', YamlStr ''- RUN_E2E_TESTS_FOO_BAR=true - RUN_E2E_TESTS_ACCESSIBILITY=true'')])])
     = Inr [''accessibility'', ''fooBar'']
   \<and> assignment_names ''- RUN_E2E_TESTS_FOO_BAR=true - RUN_E2E_TESTS_ACCESSIBILITY=true''
     = [''FOO_BAR'', ''ACCESSIBILITY'']
   \<and> camel_case_of_snake_case ''foo_bar'' = ''fooBar''
   \<and> (\<exists>names. get_e2e_suite_names_from_jobs_travis_yml_file yaml_str_bytes camel_case_of_snake_case
         (YamlDict
            [(''env'', YamlDict
                [(''jobs'', YamlStr ''- RUN_E2E_TESTS_FOO_BAR=true - RUN_E2E_TESTS_ACCESSIBILITY=true'')])])
         = Inr names \<and> ''fooBar'' \<in> set names)"
proof -
  let ?js = "''- RUN_E2E_TESTS_FOO_BAR=true - RUN_E2E_TESTS_ACCESSIBILITY=true''"
  let ?env = "YamlDict [(''jobs'', YamlStr ?js)]"
  have e: "dict_get (YamlDict [(''env'', ?env)]) ''env'' = Inr ?env" by simp
  have j: "dict_get ?env ''jobs'' = Inr (YamlStr ?js)" by simp
  have b: "yaml_str_bytes (YamlStr ?js) = Inr ?js" by simp
  have a: "assignment_names ?js = [''FOO_BAR'', ''ACCESSIBILITY'']"
    by (simp add: assignment_names_def assignment_name_at_def is_upper_snake_def is_upper_def)
  have c: "camel_case_of_snake_case ''foo_bar'' = ''fooBar''"
    by (simp add: camel_case_of_snake_case_def upper_char_def)
  have o: "\<exists>pre post. ?js = pre @ ''RUN_E2E_TESTS_FOO_BAR=true'' @ post"
    by (intro exI [of _ "''- ''"] exI [of _ "'' - RUN_E2E_TESTS_ACCESSIBILITY=true''"]) simp
  note inst = jobs_extractor_sorted_camel_case_names
    [where convert_to_bytes = yaml_str_bytes and snake_case_to_camel_case = camel_case_of_snake_case,
     OF e j b]
  from inst have "get_e2e_suite_names_from_jobs_travis_yml_file yaml_str_bytes camel_case_of_snake_case
     (YamlDict [(''env'', ?env)])
     = Inr (sort (map (\<lambda>n. camel_case_of_snake_case (lower n)) (assignment_names ?js)))"
    by (rule conjunct1)
  also have "\<dots> = Inr [''accessibility'', ''fooBar'']"
    unfolding a by (simp add: lower_def lower_char_def camel_case_of_snake_case_def upper_char_def)
  finally have 1: "get_e2e_suite_names_from_jobs_travis_yml_file yaml_str_bytes camel_case_of_snake_case
     (YamlDict [(''env'', ?env)]) = Inr [''accessibility'', ''fooBar'']" .
  from inst o c have 2: "\<exists>names. get_e2e_suite_names_from_jobs_travis_yml_file yaml_str_bytes
      camel_case_of_snake_case (YamlDict [(''env'', ?env)]) = Inr names \<and> ''fooBar'' \<in> set names"
    by blast
  from 1 a c 2 show ?thesis by (intro conjI)
qed

text \<open>
  What the script extractor returns: the sorted list of the names found at every position
  by the pattern of the source, whose dot stands for one character that is not a newline.
  When the string contains the invocation of \<^verbatim>\<open>run_e2e_tests.sh\<close> with the suite
  \<^verbatim>\<open>accessibility\<close>, the output contains \<^verbatim>\<open>accessibility\<close>.
\<close>

lemma script_extractor_pattern_names:
  assumes "dict_get travis_file_content ''script'' = Inr v"
    and "convert_to_bytes v = Inr script_str"
  shows "get_e2e_suite_names_from_script_travis_yml_file convert_to_bytes travis_file_content
         = Inr (sort (suite_arguments script_str))
    \<and> set (suite_arguments script_str) =
        {n. (\<forall>c\<in>set n. is_lower c \<or> is_upper c \<or> c = CHR ''_'' \<or> c = CHR ''-'') \<and>
            (\<exists>pre d post. d \<noteq> CHR 0x0A \<and>
               script_str = pre @ ''bash scripts/run_e2e_tests'' @ d # ''sh --suite='' @ [CHR 0x22]
                              @ n @ [CHR 0x22] @ post)}
    \<and> ((\<exists>pre post. script_str = pre @ ''bash scripts/run_e2e_tests.sh --suite='' @ [CHR 0x22]
                                   @ ''accessibility'' @ [CHR 0x22] @ post)
       \<longrightarrow> (\<exists>names. get_e2e_suite_names_from_script_travis_yml_file convert_to_bytes
                       travis_file_content = Inr names
                   \<and> ''accessibility'' \<in> set names))"
proof -
  have 1: "get_e2e_suite_names_from_script_travis_yml_file convert_to_bytes travis_file_content
         = Inr (sort (suite_arguments script_str))"
    by (simp add: get_e2e_suite_names_from_script_travis_yml_file_def assms findall_e2e_test_suite_regex)
  have 3: "''accessibility'' \<in> set (sort (suite_arguments script_str))"
    if "\<exists>pre post. script_str = pre @ ''bash scripts/run_e2e_tests.sh --suite='' @ [CHR 0x22]
                                   @ ''accessibility'' @ [CHR 0x22] @ post"
  proof -
    from that obtain pre post where
      eq: "script_str = pre @ ''bash scripts/run_e2e_tests'' @ CHR ''.'' # ''sh --suite='' @ [CHR 0x22]
          @ ''accessibility'' @ [CHR 0x22] @ post"
      by auto
    have cls: "\<forall>c\<in>set ''accessibility''. is_lower c \<or> is_upper c \<or> c = CHR ''_'' \<or> c = CHR ''-''"
      by (simp add: is_lower_def)
    have dot: "CHR ''.'' \<noteq> CHR 0x0A" by simp
    have "''accessibility'' \<in> set (suite_arguments script_str)"
      unfolding set_suite_arguments mem_Collect_eq
    proof (intro conjI exI)
      show "\<forall>c\<in>set ''accessibility''. is_lower c \<or> is_upper c \<or> c = CHR ''_'' \<or> c = CHR ''-''"
        by (rule cls)
      show "CHR ''.'' \<noteq> CHR 0x0A" by (rule dot)
      show "script_str = pre @ ''bash scripts/run_e2e_tests'' @ CHR ''.'' # ''sh --suite='' @ [CHR 0x22]
          @ ''accessibility'' @ [CHR 0x22] @ post" by (rule eq)
    qed
    then show ?thesis by simp
  qed
  from 1 3 show ?thesis by (simp add: set_suite_arguments)
qed

lemma script_extractor_pattern_names_example:
  "get_e2e_suite_names_from_script_travis_yml_file yaml_str_bytes
     (YamlDict
        [(''script'', YamlStr
           (''bash scripts/run_e2e_tests.sh --suite='' @ [CHR 0x22] @ ''users'' @ [CHR 0x22] @
            '' bash scripts/run_e2e_tests.sh --suite='' @ [CHR 0x22] @ ''accessibility'' @ [CHR 0x22]))])
     = Inr [''accessibility'', ''users'']
   \<and> (\<exists>names. get_e2e_suite_names_from_script_travis_yml_file yaml_str_bytes
     (YamlDict
        [(''script'', YamlStr
           (''bash scripts/run_e2e_tests.sh --suite='' @ [CHR 0x22] @ ''users'' @ [CHR 0x22] @
            '' bash scripts/run_e2e_tests.sh --suite='' @ [CHR 0x22] @ ''accessibility'' @ [CHR 0x22]))])
     = Inr names \<and> ''accessibility'' \<in> set names)"
proof -
  let ?s = "''bash scripts/run_e2e_tests.sh --suite='' @ [CHR 0x22] @ ''users'' @ [CHR 0x22] @
            '' bash scripts/run_e2e_tests.sh --suite='' @ [CHR 0x22] @ ''accessibility'' @ [CHR 0x22]"
  have g: "dict_get (YamlDict [(''script'', YamlStr ?s)]) ''script'' = Inr (YamlStr ?s)" by simp
  have b: "yaml_str_bytes (YamlStr ?s) = Inr ?s" by simp
  have a: "suite_arguments ?s = [''users'', ''accessibility'']"
    by (simp add: suite_arguments_def suite_argument_at_def is_suite_name_char_def is_upper_def
          is_lower_def)
  have o: "\<exists>pre post. ?s = pre @ ''bash scripts/run_e2e_tests.sh --suite='' @ [CHR 0x22]
                                   @ ''accessibility'' @ [CHR 0x22] @ post"
    by (intro exI [of _ "''bash scripts/run_e2e_tests.sh --suite='' @ [CHR 0x22] @ ''users'' @ [CHR 0x22] @ '' ''"]
          exI [of _ "[]"]) simp
  note inst = script_extractor_pattern_names [where convert_to_bytes = yaml_str_bytes, OF g b]
  from inst
  have "get_e2e_suite_names_from_script_travis_yml_file yaml_str_bytes (YamlDict [(''script'', YamlStr ?s)])
     = Inr (sort (suite_arguments ?s))"
    by (rule conjunct1)
  also have "\<dots> = Inr [''accessibility'', ''users'']"
    unfolding a by simp
  finally have 1: "get_e2e_suite_names_from_script_travis_yml_file yaml_str_bytes
      (YamlDict [(''script'', YamlStr ?s)]) = Inr [''accessibility'', ''users'']" .
  from inst o have 2: "\<exists>names. get_e2e_suite_names_from_script_travis_yml_file yaml_str_bytes
      (YamlDict [(''script'', YamlStr ?s)]) = Inr names \<and> ''accessibility'' \<in> set names"
    by blast
  from 1 2 show ?thesis by (intro conjI)
qed

text \<open>Every suite name quoted in an invocation of \<^verbatim>\<open>run_e2e_tests.sh\<close> is found.\<close>

lemma quoted_suite_name_at_suite_argument_at:
  assumes "quoted_suite_name_at s = Some n"
  shows "suite_argument_at s = Some n"
proof -
  from assms obtain u where "strip_prefix (''bash scripts/run_e2e_tests.sh --suite='' @ [CHR 0x22]) s = Some u"
    by (auto simp: quoted_suite_name_at_def split: option.splits)
  then have s: "s = ''bash scripts/run_e2e_tests.sh --suite='' @ [CHR 0x22] @ u"
    by (simp add: strip_prefix_Some)
  with assms show ?thesis
    by (simp add: quoted_suite_name_at_def suite_argument_at_def)
qed

lemma quoted_suite_names_found: "set (quoted_suite_names s) \<subseteq> set (suite_arguments s)"
  unfolding quoted_suite_names_def suite_arguments_def set_every_position
  by (auto dest: quoted_suite_name_at_suite_argument_at)

text \<open>
  C4. The claim and the comment of lines 71 and 72 name the invocation
  \<^verbatim>\<open>bash scripts/run_e2e_tests.sh --suite="<name>"\<close>. The pattern of line 74 leaves the
  dot before \<^verbatim>\<open>sh\<close> unescaped, so the extractor also returns the names quoted after
  another file name. For the script string below, with one invocation of
  \<^verbatim>\<open>run_e2e_tests.sh\<close> and one of \<^verbatim>\<open>run_e2e_testsXsh\<close>, the sorted list of the quoted
  suite names of the invocations is \<^verbatim>\<open>accessibility\<close> alone; the extractor returns
  \<^verbatim>\<open>accessibility\<close> and \<^verbatim>\<open>users\<close>.
\<close>

theorem script_extractor_unescaped_dot:
  "get_e2e_suite_names_from_script_travis_yml_file yaml_str_bytes
     (YamlDict
        [(''script'', YamlStr
           (''bash scripts/run_e2e_tests.sh --suite='' @ [CHR 0x22] @ ''accessibility'' @ [CHR 0x22] @
            '' bash scripts/run_e2e_testsXsh --suite='' @ [CHR 0x22] @ ''users'' @ [CHR 0x22]))])
     = Inr [''accessibility'', ''users'']
   \<and> sort (quoted_suite_names
        (''bash scripts/run_e2e_tests.sh --suite='' @ [CHR 0x22] @ ''accessibility'' @ [CHR 0x22] @
         '' bash scripts/run_e2e_testsXsh --suite='' @ [CHR 0x22] @ ''users'' @ [CHR 0x22]))
     = [''accessibility'']"
  by (simp add: get_e2e_suite_names_from_script_travis_yml_file_def e2e_test_suite_regex_def
        match_here_def is_upper_def is_lower_def findall.simps backtrack.simps
        quoted_suite_names_def quoted_suite_name_at_def is_suite_name_char_def)

subsection \<open>The patterns of protractor.conf.js\<close>

lemma suite_object_at_Some:
  "suite_object_at s = Some body \<longleftrightarrow>
     (\<exists>rest. s = ''suites = {'' @ body @ ''}'' @ rest \<and> body \<noteq> [] \<and> CHR ''}'' \<notin> set body)"
proof
  define l where "l = ''suites = {''"
  let ?P = "\<lambda>c. c \<noteq> CHR ''}''"
  assume a: "suite_object_at s = Some body"
  then obtain t where sp: "strip_prefix l s = Some t"
    by (auto simp: suite_object_at_def l_def split: option.splits)
  from a obtain x rest where d: "dropWhile ?P t = x # rest"
    and n: "body = takeWhile ?P t" and ne: "body \<noteq> []"
    unfolding suite_object_at_def l_def [symmetric] sp
    by (auto split: list.splits if_splits simp del: dropWhile_eq_Nil_conv)
  from d have x: "x = CHR ''}''" by (simp add: dropWhile_eq_Cons_conv)
  have "t = takeWhile ?P t @ dropWhile ?P t" by simp
  with d n x have "t = body @ ''}'' @ rest" by simp
  moreover from n have "CHR ''}'' \<notin> set body"
    by (auto dest: set_takeWhileD)
  ultimately show "\<exists>rest. s = ''suites = {'' @ body @ ''}'' @ rest \<and> body \<noteq> [] \<and> CHR ''}'' \<notin> set body"
    using sp ne unfolding l_def by (auto simp: strip_prefix_Some)
next
  define l where "l = ''suites = {''"
  let ?P = "\<lambda>c. c \<noteq> CHR ''}''"
  assume "\<exists>rest. s = ''suites = {'' @ body @ ''}'' @ rest \<and> body \<noteq> [] \<and> CHR ''}'' \<notin> set body"
  then obtain rest where s: "s = l @ (body @ CHR ''}'' # rest)"
    and ne: "body \<noteq> []" and n: "\<forall>c\<in>set body. ?P c"
    unfolding l_def by auto
  have q: "\<not> ?P (CHR ''}'')" by simp
  from s have sp: "strip_prefix l s = Some (body @ CHR ''}'' # rest)"
    by (simp only: strip_prefix_Some)
  show "suite_object_at s = Some body"
    unfolding suite_object_at_def l_def [symmetric] sp
    using ne by (simp add: takeWhile_dropWhile_run [OF n q])
qed

lemma match_here_suite_object_regex:
  "match_here suite_object_regex p s =
     (case suite_object_at s of
        None \<Rightarrow> None
      | Some body \<Rightarrow>
          Some (body, Some CHR ''}'', drop (length ''suites = {'' + length body + 1) s))"
proof -
  define l where "l = ''suites = {''"
  let ?r = suite_object_regex
  let ?P = "\<lambda>c. c \<noteq> CHR ''}''"
  have cls: "group_class ?r = ?P" by (simp add: suite_object_regex_def)
  have a: "after_group ?r = [Lit CHR ''}'']" by (simp add: suite_object_regex_def)
  have q: "\<not> group_class ?r CHR ''}''" by (simp add: suite_object_regex_def)
  have m: "group_min ?r = 1" by (simp add: suite_object_regex_def)
  have b: "before_group ?r = map Lit l" by (simp add: suite_object_regex_def l_def)
  have l: "l \<noteq> []" by (simp add: l_def)
  show ?thesis
  proof (cases "strip_prefix l s")
    case None
    then show ?thesis
      by (simp only: match_here_def b match_atoms_literal suite_object_at_def l_def [symmetric] option.case)
  next
    case (Some t)
    then have s: "s = l @ t" by (simp only: strip_prefix_Some)
    have "match_here ?r p s = backtrack ?r (length (takeWhile (group_class ?r) t)) (Some (last l)) t"
      using l by (simp only: match_here_def b match_atoms_literal Some option.case prod.case if_False)
    also have "\<dots> =
       (if group_min ?r \<le> length (takeWhile (group_class ?r) t) then
        (case dropWhile (group_class ?r) t of
           [] \<Rightarrow> None
         | x # rest \<Rightarrow> if x = CHR ''}'' then Some (takeWhile (group_class ?r) t, Some CHR ''}'', rest) else None)
        else None)"
      by (rule backtrack_greedy [OF a q])
    also have "\<dots> = (case suite_object_at s of
        None \<Rightarrow> None
      | Some body \<Rightarrow> Some (body, Some CHR ''}'', drop (length l + length body + 1) s))"
    proof (cases "dropWhile ?P t")
      case Nil
      then show ?thesis
        unfolding suite_object_at_def l_def [symmetric] Some cls m
        by (simp only: list.case option.case if_cancel)
    next
      case (Cons x rest)
      then have x: "x = CHR ''}''" by (simp add: dropWhile_eq_Cons_conv)
      have "t = takeWhile ?P t @ x # rest"
        using Cons takeWhile_dropWhile_id [of ?P t] by simp
      then have "s = (l @ takeWhile ?P t @ [x]) @ rest" using s by simp
      then have "drop (length (l @ takeWhile ?P t @ [x])) s = rest"
        by (metis append_eq_conv_conj)
      then have d: "drop (length l + length (takeWhile ?P t) + 1) s = rest" by (simp add: add.assoc)
      have e: "(1 \<le> length (takeWhile ?P t)) = (takeWhile ?P t \<noteq> [])"
        by (cases "takeWhile ?P t") simp_all
      from Some Cons have so: "suite_object_at s =
          (if takeWhile ?P t \<noteq> [] then Some (takeWhile ?P t) else None)"
        unfolding suite_object_at_def l_def [symmetric] by (simp only: option.case list.case)
      from Cons x have dw: "dropWhile ?P t = CHR ''}'' # rest" by simp
      show ?thesis
        unfolding so cls m dw
        by (simp only: list.case option.case e d simp_thms if_True split: if_splits) simp
    qed
    finally show ?thesis unfolding l_def .
  qed
qed

lemma findall_Nil:
  assumes "\<And>q pre t. s = pre @ t \<Longrightarrow> match_here r q t = None"
  shows "findall r p s = []"
  using assms
proof (induction s arbitrary: p)
  case Nil
  then have "match_here r p [] = None" by simp
  then show ?case by (subst findall.simps) simp
next
  case (Cons c cs)
  have "match_here r p (c # cs) = None" using Cons.prems [of "[]"] by simp
  moreover have "findall r (Some c) cs = []"
  proof (rule Cons.IH)
    fix q pre t
    assume "cs = pre @ t"
    then have "c # cs = (c # pre) @ t" by simp
    then show "match_here r q t = None" by (rule Cons.prems)
  qed
  ultimately show ?case by (subst findall.simps) simp
qed

lemma findall_first_match:
  assumes "\<And>q k. k < length pre \<Longrightarrow> match_here r q (drop k pre @ t) = None"
    and "\<And>q. match_here r q t = Some (g, p', rest)"
    and "length rest < length t"
  shows "findall r p (pre @ t) = g # findall r p' rest"
  using assms(1)
proof (induction pre arbitrary: p)
  case Nil
  from assms(2,3) show ?case by (subst findall.simps) simp
next
  case (Cons c cs)
  have "match_here r p ((c # cs) @ t) = None"
    using Cons.prems [of 0] by simp
  moreover have "findall r (Some c) (cs @ t) = g # findall r p' rest"
  proof (rule Cons.IH)
    fix q k
    assume "k < length cs"
    then have "Suc k < length (c # cs)" by simp
    from Cons.prems [OF this] show "match_here r q (drop k cs @ t) = None" by simp
  qed
  ultimately show ?case by (subst findall.simps) simp
qed

lemma strip_prefix_no_straddle:
  assumes "l \<noteq> []" and "last l \<notin> set (butlast l)" and "u \<noteq> []" and "\<not> sublist l u"
  shows "strip_prefix l (u @ l @ w) = None"
proof (rule ccontr)
  assume "strip_prefix l (u @ l @ w) \<noteq> None"
  then obtain t where "u @ l @ w = l @ t" by (auto simp: strip_prefix_Some)
  then consider us where "u = l @ us" | us where "u @ us = l" "l @ w = us @ t"
    by (auto simp: append_eq_append_conv2)
  then show False
  proof cases
    case 1
    then have "sublist l u" by (metis sublist_append_rightI)
    with assms(4) show False by simp
  next
    case 2
    show False
    proof (cases "us = []")
      case True
      with 2 have "u = l" by simp
      with assms(4) show False by simp
    next
      case False
      from 2(1) assms(3) have len: "length us < length l"
        by (metis length_append length_greater_0_conv less_add_same_cancel2 add.commute)
      from 2(1) False have "last us = last l" by (metis last_append)
      moreover from 2(2) len have "us = take (length us) l"
        by (metis append_eq_conv_conj take_append less_imp_le_nat take_all_iff diff_is_0_eq' take0 append_Nil2 order_less_imp_le)
      moreover from len have "take (length us) l = take (length us) (butlast l)"
        by (simp add: take_butlast)
      ultimately have "last l \<in> set (take (length us) (butlast l))"
        using False by (metis last_in_set)
      then have "last l \<in> set (butlast l)" by (rule in_set_takeD)
      with assms(2) show False by simp
    qed
  qed
qed

lemma findall_nonempty:
  assumes "\<And>q. match_here r q t \<noteq> None"
  shows "findall r p (pre @ t) \<noteq> []"
proof (induction pre arbitrary: p)
  case Nil
  from assms [of p] show ?case
    by (subst findall.simps) (auto split: option.splits)
next
  case (Cons c cs)
  from Cons [of "Some c"] show ?case
    by (subst findall.simps) (auto split: option.splits)
qed

lemma match_atoms_suffix: "match_atoms as p s = Some (p', s') \<Longrightarrow> suffix s' s"
  by (induction as p s rule: match_atoms.induct)
     (auto split: list.splits if_splits simp: suffix_Cons)

lemma backtrack_suffix: "backtrack r k p s = Some (g, p', rest) \<Longrightarrow> suffix rest s"
proof (induction k)
  case 0
  then have "match_atoms (after_group r) p (drop 0 s) = Some (p', rest)"
    by (subst (asm) backtrack.simps) (auto split: if_splits option.splits)
  then show ?case using match_atoms_suffix by fastforce
next
  case (Suc k)
  show ?case
  proof (cases "match_atoms (after_group r) (Some (s ! k)) (drop (Suc k) s)")
    case None
    with Suc.prems have "backtrack r k p s = Some (g, p', rest)"
      by (subst (asm) backtrack.simps) (auto split: if_splits)
    then show ?thesis by (rule Suc.IH)
  next
    case (Some m)
    with Suc.prems have "m = (p', rest)"
      by (subst (asm) backtrack.simps) (auto split: if_splits)
    with Some have "suffix rest (drop (Suc k) s)" using match_atoms_suffix by blast
    then show ?thesis using suffix_drop suffix_order.trans by blast
  qed
qed

lemma match_here_suffix: "match_here r p s = Some (g, p', rest) \<Longrightarrow> suffix rest s"
  unfolding match_here_def
  by (auto split: option.splits dest!: match_atoms_suffix backtrack_suffix intro: suffix_order.trans)

lemma findall_member:
  assumes "g \<in> set (findall r p s)"
  shows "\<exists>pre t q p' rest. s = pre @ t \<and> match_here r q t = Some (g, p', rest)"
  using assms
proof (induction "length s" arbitrary: p s rule: less_induct)
  case less
  have tail: "\<exists>pre t q p' rest. s = pre @ t \<and> match_here r q t = Some (g, p', rest)"
    if "g \<in> set (case s of [] \<Rightarrow> [] | c # cs \<Rightarrow> findall r (Some c) cs)"
  proof (cases s)
    case Nil
    with that show ?thesis by simp
  next
    case (Cons c cs)
    with that have "g \<in> set (findall r (Some c) cs)" by simp
    moreover from Cons have "length cs < length s" by simp
    ultimately obtain pre t q p' rest where "cs = pre @ t" "match_here r q t = Some (g, p', rest)"
      using less.hyps by blast
    with Cons have "s = (c # pre) @ t \<and> match_here r q t = Some (g, p', rest)" by simp
    then show ?thesis by blast
  qed
  show ?case
  proof (cases "match_here r p s")
    case None
    with less.prems have "g \<in> set (case s of [] \<Rightarrow> [] | c # cs \<Rightarrow> findall r (Some c) cs)"
      by (subst (asm) findall.simps) simp
    then show ?thesis by (rule tail)
  next
    case (Some m)
    obtain g' p' rest where m: "m = (g', p', rest)" by (cases m)
    show ?thesis
    proof (cases "g = g'")
      case True
      with Some m have "s = [] @ s \<and> match_here r p s = Some (g, p', rest)" by simp
      then show ?thesis by blast
    next
      case False
      show ?thesis
      proof (cases "length rest < length s")
        case True
        with less.prems Some m False have "g \<in> set (findall r p' rest)"
          by (subst (asm) findall.simps) simp
        with True obtain pre t q p'' rest' where r: "rest = pre @ t"
          and mm: "match_here r q t = Some (g, p'', rest')"
          using less.hyps by blast
        from Some m have "suffix rest s" by (auto dest: match_here_suffix)
        then obtain u where "s = u @ rest" by (auto simp: suffix_def)
        with r have "s = (u @ pre) @ t" by simp
        with mm show ?thesis by blast
      next
        case F: False
        with less.prems Some m False
        have "g \<in> set (case s of [] \<Rightarrow> [] | c # cs \<Rightarrow> findall r (Some c) cs)"
          by (subst (asm) findall.simps) simp
        then show ?thesis by (rule tail)
      qed
    qed
  qed
qed

lemma match_here_key_regex:
  assumes "match_here key_regex q t = Some (g, p', rest)"
  shows "t = g @ '':'' @ rest \<and> (\<forall>c\<in>set g. is_lower c \<or> is_upper c \<or> c = CHR ''_'' \<or> c = CHR ''-'')"
proof -
  let ?r = key_regex
  let ?P = "\<lambda>c. is_lower c \<or> is_upper c \<or> c = CHR ''_'' \<or> c = CHR ''-''"
  have cls: "group_class ?r = ?P" by (simp add: key_regex_def)
  have a: "after_group ?r = [Lit CHR '':'']" by (simp add: key_regex_def)
  have q: "\<not> group_class ?r CHR '':''" by (simp add: key_regex_def is_lower_def is_upper_def)
  have b: "before_group ?r = [WordBoundary]" by (simp add: key_regex_def)
  from assms have "backtrack ?r (length (takeWhile (group_class ?r) t)) q t = Some (g, p', rest)"
    unfolding match_here_def b by (simp split: if_splits)
  with backtrack_greedy [OF a q, of t q]
  have "(case dropWhile (group_class ?r) t of
           [] \<Rightarrow> None
         | x # rest \<Rightarrow> if x = CHR '':'' then Some (takeWhile (group_class ?r) t, Some CHR '':'', rest) else None)
        = Some (g, p', rest)"
    by (simp split: if_splits)
  then have "dropWhile ?P t = CHR '':'' # rest \<and> g = takeWhile ?P t"
    unfolding cls
    by (auto split: if_splits list.splits simp del: dropWhile_eq_Nil_conv)
  moreover have "t = takeWhile ?P t @ dropWhile ?P t" by simp
  ultimately show ?thesis by (auto dest: set_takeWhileD)
qed

lemma findall_key_regex_keys:
  assumes "key \<in> set (findall key_regex p body)"
  shows "(\<forall>c\<in>set key. is_lower c \<or> is_upper c \<or> c = CHR ''_'' \<or> c = CHR ''-'')
     \<and> sublist (key @ '':'') body"
proof -
  from findall_member [OF assms] obtain pre t q p' rest
    where "body = pre @ t" "match_here key_regex q t = Some (key, p', rest)" by blast
  with match_here_key_regex [of q t key p' rest]
  have "body = pre @ (key @ '':'') @ rest"
    and "\<forall>c\<in>set key. is_lower c \<or> is_upper c \<or> c = CHR ''_'' \<or> c = CHR ''-''" by auto
  then show ?thesis unfolding sublist_def by blast
qed

lemma findall_suite_object_regex_Nil:
  assumes "\<forall>pre body post. body \<noteq> [] \<and> CHR ''}'' \<notin> set body
             \<longrightarrow> config \<noteq> pre @ ''suites = {'' @ body @ ''}'' @ post"
  shows "findall suite_object_regex p config = []"
proof (rule findall_Nil)
  fix q pre t
  assume c: "config = pre @ t"
  have "suite_object_at t = None"
  proof (rule ccontr)
    assume "suite_object_at t \<noteq> None"
    then obtain body where "suite_object_at t = Some body" by auto
    then obtain rest where "t = ''suites = {'' @ body @ ''}'' @ rest" "body \<noteq> []" "CHR ''}'' \<notin> set body"
      unfolding suite_object_at_Some by blast
    with c assms show False by blast
  qed
  then show "match_here suite_object_regex q t = None"
    by (simp add: match_here_suite_object_regex)
qed

lemma findall_suite_object_regex_first:
  assumes "body \<noteq> []" and "CHR ''}'' \<notin> set body" and "\<not> sublist ''suites = {'' pre"
  shows "findall suite_object_regex p (pre @ ''suites = {'' @ body @ ''}'' @ post)
       = body # findall suite_object_regex (Some CHR ''}'') post"
proof -
  define l where "l = ''suites = {''"
  have l: "l \<noteq> []" "last l \<notin> set (butlast l)" by (simp_all add: l_def)
  let ?t = "l @ body @ ''}'' @ post"
  have at: "suite_object_at ?t = Some body"
    unfolding suite_object_at_Some l_def using assms(1,2) by blast
  have "findall suite_object_regex p (pre @ ?t) = body # findall suite_object_regex (Some CHR ''}'') post"
  proof (rule findall_first_match)
    fix q k
    assume k: "k < length pre"
    then have ne: "drop k pre \<noteq> []" by simp
    have "\<not> sublist l (drop k pre)"
      using assms(3) sublist_drop sublist_order.order.trans unfolding l_def by blast
    from strip_prefix_no_straddle [OF l ne this]
    have "strip_prefix l (drop k pre @ l @ body @ ''}'' @ post) = None" .
    then have "suite_object_at (drop k pre @ ?t) = None"
      unfolding suite_object_at_def l_def by simp
    then show "match_here suite_object_regex q (drop k pre @ ?t) = None"
      by (simp add: match_here_suite_object_regex)
  next
    fix q
    show "match_here suite_object_regex q ?t = Some (body, Some CHR ''}'', post)"
      unfolding match_here_suite_object_regex at by (simp add: l_def)
  next
    show "length post < length ?t" by simp
  qed
  then show ?thesis unfolding l_def .
qed

subsection \<open>The extractor of protractor.conf.js\<close>

text \<open>
  C9. When no part of the file content is \<^verbatim>\<open>suites = {\<close>, a non-empty body without a
  closing brace, and a closing brace, the pattern matches nowhere and the extractor ends
  with IndexError; it returns no list.
\<close>

theorem protractor_extractor_index_error:
  assumes "\<forall>pre body post. body \<noteq> [] \<and> CHR ''}'' \<notin> set body
             \<longrightarrow> config \<noteq> pre @ ''suites = {'' @ body @ ''}'' @ post"
  shows "get_e2e_suite_names_from_protractor_file config = Inl IndexError"
  unfolding get_e2e_suite_names_from_protractor_file_def
  by (simp only: findall_suite_object_regex_Nil [OF assms] list.case)

text \<open>
  The hypothesis of C9 holds for a file whose \<^verbatim>\<open>suites\<close> object is empty: the pattern
  wants one character at least between the braces.
\<close>

theorem protractor_extractor_index_error_witness:
  "get_e2e_suite_names_from_protractor_file ''var suites = {};'' = Inl IndexError"
proof (rule protractor_extractor_index_error, intro allI impI notI)
  fix pre body post :: string
  assume h: "body \<noteq> [] \<and> CHR ''}'' \<notin> set body"
    and e: "''var suites = {};'' = pre @ ''suites = {'' @ body @ ''}'' @ post"
  have ev: "every_position suite_object_at ''var suites = {};'' = []"
    by (simp add: suite_object_at_def)
  from h have "suite_object_at (''suites = {'' @ body @ ''}'' @ post) = Some body"
    unfolding suite_object_at_Some by blast
  with e have "body \<in> set (every_position suite_object_at ''var suites = {};'')"
    unfolding set_every_position by blast
  with ev show False by simp
qed

text \<open>
  What the extractor returns when no \<^verbatim>\<open>suites = {\<close> comes before the object: the sorted
  list of what the key pattern finds in the body. Of two objects the first one counts.
\<close>

lemma protractor_extractor_key_pattern:
  assumes "config = pre @ ''suites = {'' @ body @ ''}'' @ post"
    and "body \<noteq> []" and "CHR ''}'' \<notin> set body"
    and "\<not> sublist ''suites = {'' pre"
  shows "get_e2e_suite_names_from_protractor_file config = Inr (sort (findall key_regex None body))
    \<and> (\<forall>key\<in>set (findall key_regex None body).
          (\<forall>c\<in>set key. is_lower c \<or> is_upper c \<or> c = CHR ''_'' \<or> c = CHR ''-'')
          \<and> sublist (key @ '':'') body)
    \<and> (body = '' alpha: [...], betaGamma: [...] ''
       \<longrightarrow> get_e2e_suite_names_from_protractor_file config = Inr [''alpha'', ''betaGamma''])"
proof -
  have 1: "get_e2e_suite_names_from_protractor_file config = Inr (sort (findall key_regex None body))"
    unfolding get_e2e_suite_names_from_protractor_file_def assms(1)
      findall_suite_object_regex_first [OF assms(2-4)]
    by simp
  have 3: "findall key_regex None '' alpha: [...], betaGamma: [...] '' = [''alpha'', ''betaGamma'']"
    by (simp add: findall.simps backtrack.simps key_regex_def match_here_def at_boundary_def
          is_word_char_def is_lower_def is_upper_def is_digit_def)
  from 1 3 show ?thesis using findall_key_regex_keys by auto
qed

lemma protractor_extractor_takes_first_match:
  "get_e2e_suite_names_from_protractor_file
     (''suites = {zeta: 1}; '' @ ''suites = { alpha: [...], betaGamma: [...] }'') = Inr [''zeta'']
   \<and> get_e2e_suite_names_from_protractor_file
     (''suites = {zeta: 1}; '' @ ''suites = { alpha: [...], betaGamma: [...] }'')
       \<noteq> Inr [''alpha'', ''betaGamma'']"
  by (simp add: get_e2e_suite_names_from_protractor_file_def findall.simps backtrack.simps
        suite_object_regex_def key_regex_def match_here_def at_boundary_def
        is_word_char_def is_lower_def is_upper_def is_digit_def)

subsection \<open>The key pattern on a well-formed object body\<close>

lemma key_class_word: "is_suite_name_char c \<Longrightarrow> is_word_char c \<or> c = CHR ''-''"
  by (auto simp: is_suite_name_char_def is_word_char_def)

lemma key_regex_fields:
  "group_class key_regex = is_suite_name_char"
  "after_group key_regex = [Lit CHR '':'']"
  "before_group key_regex = [WordBoundary]"
  "group_min key_regex = 0"
  "\<not> group_class key_regex CHR '':''"
  by (simp_all add: key_regex_def is_suite_name_char_def fun_eq_iff is_lower_def is_upper_def)

lemma match_here_key_regex_key:
  assumes "is_key k" and "prev_ok q"
  shows "match_here key_regex q (k @ CHR '':'' # rest) = Some (k, Some CHR '':'', rest)"
proof -
  from assms(1) obtain c cs where k: "k = c # cs"
    and c: "is_lower c \<or> is_upper c \<or> c = CHR ''_''" and cs: "list_all is_suite_name_char cs"
    by (auto simp: is_key_def split: list.splits)
  from c have w: "is_word_char c" by (auto simp: is_word_char_def)
  from c cs k have all: "\<forall>x\<in>set k. is_suite_name_char x"
    by (auto simp: is_suite_name_char_def list_all_iff)
  have q: "\<not> is_suite_name_char CHR '':''"
    by (simp add: is_suite_name_char_def is_lower_def is_upper_def)
  from assms(2) w k have b: "at_boundary q (k @ CHR '':'' # rest)"
    by (auto simp: at_boundary_def prev_ok_def split: option.splits)
  have "match_here key_regex q (k @ CHR '':'' # rest)
      = backtrack key_regex (length (takeWhile (group_class key_regex) (k @ CHR '':'' # rest))) q
          (k @ CHR '':'' # rest)"
    using b by (simp add: match_here_def key_regex_fields(3))
  also have "\<dots> = Some (k, Some CHR '':'', rest)"
    unfolding backtrack_greedy [OF key_regex_fields(2,5)]
    by (simp add: key_regex_fields(1,4) takeWhile_dropWhile_run [OF all q])
  finally show ?thesis .
qed

lemma match_here_key_regex_gap:
  assumes "g \<noteq> []" and "CHR '':'' \<notin> set g" and "\<not> is_suite_name_char (last g)"
  shows "match_here key_regex q (g @ w) = None"
proof (rule ccontr)
  assume "match_here key_regex q (g @ w) \<noteq> None"
  then obtain run p' r where "match_here key_regex q (g @ w) = Some (run, p', r)" by auto
  from match_here_key_regex [OF this]
  have e: "g @ w = run @ CHR '':'' # r" and run: "\<forall>c\<in>set run. is_suite_name_char c"
    by (auto simp: is_suite_name_char_def)
  from e consider us where "g = run @ us" "us @ w = CHR '':'' # r" | us where "g @ us = run"
    by (auto simp: append_eq_append_conv2)
  then show False
  proof cases
    case 1
    show False
    proof (cases us)
      case Nil
      with 1 assms(1) run have "is_suite_name_char (last g)" by auto
      with assms(3) show False by simp
    next
      case (Cons u us')
      with 1 have "CHR '':'' \<in> set g" by auto
      with assms(2) show False by simp
    qed
  next
    case 2
    with run assms(1) have "is_suite_name_char (last g)" by auto
    with assms(3) show False by simp
  qed
qed

lemma match_here_key_regex_no_colon:
  assumes "CHR '':'' \<notin> set s"
  shows "match_here key_regex q s = None"
proof (rule ccontr)
  assume "match_here key_regex q s \<noteq> None"
  then obtain run p' r where "match_here key_regex q s = Some (run, p', r)" by auto
  from match_here_key_regex [OF this] assms show False by auto
qed

lemma findall_first_match_prev:
  assumes "\<And>q k. k < length pre \<Longrightarrow> match_here r q (drop k pre @ t) = None"
    and "match_here r (if pre = [] then p else Some (last pre)) t = Some (g, p', rest)"
    and "length rest < length t"
  shows "findall r p (pre @ t) = g # findall r p' rest"
  using assms(1,2)
proof (induction pre arbitrary: p)
  case Nil
  with assms(3) show ?case by (subst findall.simps) simp
next
  case (Cons c cs)
  have "match_here r p ((c # cs) @ t) = None"
    using Cons.prems(1) [of 0] by simp
  moreover have "findall r (Some c) (cs @ t) = g # findall r p' rest"
  proof (rule Cons.IH)
    fix q k
    assume "k < length cs"
    then have "Suc k < length (c # cs)" by simp
    from Cons.prems(1) [OF this] show "match_here r q (drop k cs @ t) = None" by simp
  next
    from Cons.prems(2)
    show "match_here r (if cs = [] then Some c else Some (last cs)) t = Some (g, p', rest)"
      by (simp split: if_splits)
  qed
  ultimately show ?case by (subst findall.simps) simp
qed

lemma findall_key_regex_object_body:
  assumes "well_formed entries tail" and "prev_ok p"
  shows "findall key_regex p (object_body entries tail) = map snd entries"
  using assms
proof (induction entries arbitrary: p)
  case Nil
  then have "CHR '':'' \<notin> set tail" by (simp add: well_formed_def)
  have "findall key_regex p tail = []"
  proof (rule findall_Nil)
    fix q pre t
    assume "tail = pre @ t"
    with \<open>CHR '':'' \<notin> set tail\<close> have "CHR '':'' \<notin> set t" by simp
    then show "match_here key_regex q t = None" by (rule match_here_key_regex_no_colon)
  qed
  then show ?case by simp
next
  case (Cons e es)
  obtain g k where e: "e = (g, k)" by (cases e)
  from Cons.prems(1) e have gap: "is_gap g" and key: "is_key k" and wf: "well_formed es tail"
    by (simp_all add: well_formed_def)
  let ?rest = "object_body es tail"
  have ok: "prev_ok (Some CHR '':'')"
    by (simp add: prev_ok_def is_word_char_def is_lower_def is_upper_def is_digit_def)
  have "findall key_regex p (g @ (k @ CHR '':'' # ?rest)) = k # findall key_regex (Some CHR '':'') ?rest"
  proof (rule findall_first_match_prev)
    fix q i
    assume i: "i < length g"
    then have ne: "drop i g \<noteq> []" by simp
    from gap have "CHR '':'' \<notin> set (drop i g)"
      by (auto simp: is_gap_def dest: in_set_dropD)
    moreover from gap i have "\<not> is_suite_name_char (last (drop i g))"
      by (auto simp: is_gap_def dest: key_class_word)
    ultimately show "match_here key_regex q (drop i g @ k @ CHR '':'' # ?rest) = None"
      using ne by (intro match_here_key_regex_gap)
  next
    have "prev_ok (if g = [] then p else Some (last g))"
      using gap Cons.prems(2) by (auto simp: is_gap_def prev_ok_def)
    from match_here_key_regex_key [OF key this]
    show "match_here key_regex (if g = [] then p else Some (last g)) (k @ CHR '':'' # ?rest)
        = Some (k, Some CHR '':'', ?rest)" .
  next
    show "length ?rest < length (k @ CHR '':'' # ?rest)" by simp
  qed
  also have "findall key_regex (Some CHR '':'') ?rest = map snd es"
    using wf ok by (rule Cons.IH)
  finally show ?case using e by simp
qed

lemma findall_suite_object_regex_first_object:
  assumes "body \<noteq> []" and "CHR ''}'' \<notin> set body"
    and first: "\<forall>u b r. b \<noteq> [] \<and> CHR ''}'' \<notin> set b
                 \<and> pre @ ''suites = {'' @ body @ ''}'' @ post = u @ ''suites = {'' @ b @ ''}'' @ r
               \<longrightarrow> length pre \<le> length u"
  shows "findall suite_object_regex p (pre @ ''suites = {'' @ body @ ''}'' @ post)
       = body # findall suite_object_regex (Some CHR ''}'') post"
proof -
  let ?t = "''suites = {'' @ body @ ''}'' @ post"
  have at: "suite_object_at ?t = Some body"
    unfolding suite_object_at_Some using assms(1,2) by blast
  show ?thesis
  proof (rule findall_first_match)
    fix q k
    assume k: "k < length pre"
    have "suite_object_at (drop k pre @ ?t) = None"
    proof (rule ccontr)
      assume "suite_object_at (drop k pre @ ?t) \<noteq> None"
      then obtain b where "suite_object_at (drop k pre @ ?t) = Some b" by auto
      then obtain r where d: "drop k pre @ ?t = ''suites = {'' @ b @ ''}'' @ r"
        and b: "b \<noteq> []" "CHR ''}'' \<notin> set b"
        unfolding suite_object_at_Some by blast
      have "pre @ ?t = take k pre @ drop k pre @ ?t" by simp
      with d have "pre @ ?t = take k pre @ ''suites = {'' @ b @ ''}'' @ r" by simp
      with first b have "length pre \<le> length (take k pre)" by blast
      with k show False by simp
    qed
    then show "match_here suite_object_regex q (drop k pre @ ?t) = None"
      by (simp add: match_here_suite_object_regex)
  next
    fix q
    show "match_here suite_object_regex q ?t = Some (body, Some CHR ''}'', post)"
      unfolding match_here_suite_object_regex at by simp
  next
    show "length post < length ?t" by simp
  qed
qed

lemma every_position_prefix_none:
  assumes "every_position f (xs @ y # ys) = every_position f (y # ys)" and "k < length xs"
  shows "f (drop k xs @ y # ys) = None"
proof -
  from assms(1) have "concat (map (\<lambda>k. case f (drop k xs @ y # ys) of None \<Rightarrow> [] | Some n \<Rightarrow> [n])
      [0..<length xs]) = []"
    by (simp add: every_position_append del: upt_Suc)
  with assms(2) have "(case f (drop k xs @ y # ys) of None \<Rightarrow> [] | Some n \<Rightarrow> [n]) = []"
    by (simp del: upt_Suc)
  then show ?thesis by (simp split: option.splits)
qed

lemma first_object_from_positions:
  assumes "every_position suite_object_at (pre @ y # ys) = every_position suite_object_at (y # ys)"
  shows "\<forall>u b r. b \<noteq> [] \<and> CHR ''}'' \<notin> set b \<and> pre @ y # ys = u @ ''suites = {'' @ b @ ''}'' @ r
           \<longrightarrow> length pre \<le> length u"
proof (intro allI impI)
  fix u b r
  assume h: "b \<noteq> [] \<and> CHR ''}'' \<notin> set b \<and> pre @ y # ys = u @ ''suites = {'' @ b @ ''}'' @ r"
  show "length pre \<le> length u"
  proof (rule ccontr)
    assume "\<not> length pre \<le> length u"
    then have l: "length u < length pre" by simp
    from h have "take (length u) (pre @ y # ys) = u" "drop (length u) (pre @ y # ys) = ''suites = {'' @ b @ ''}'' @ r"
      by simp_all
    with l have "drop (length u) pre @ y # ys = ''suites = {'' @ b @ ''}'' @ r" by simp
    with h have "suite_object_at (drop (length u) pre @ y # ys) = Some b"
      unfolding suite_object_at_Some by blast
    with every_position_prefix_none [OF assms l] show False by simp
  qed
qed

text \<open>
  C5 (as amended). When the file content has \<^verbatim>\<open>suites = {\<close>, a non-empty body without
  a closing brace and a closing brace, no such object starts earlier in the file, and the
  body is a well-formed list of entries (identifier-like keys of letters, underscores and
  hyphens, each at the start of a word and followed by a colon, and no other colon), the
  extractor returns the sorted list of the keys of the entries. In particular, when the
  body is \<^verbatim>\<open> alpha: [...], betaGamma: [...] \<close>, it returns \<^verbatim>\<open>alpha\<close> and
  \<^verbatim>\<open>betaGamma\<close>.
\<close>

theorem protractor_extractor_first_suites_object:
  assumes "config = pre @ ''suites = {'' @ body @ ''}'' @ post"
    and "body \<noteq> []" and "CHR ''}'' \<notin> set body"
    and "\<forall>u b r. b \<noteq> [] \<and> CHR ''}'' \<notin> set b \<and> config = u @ ''suites = {'' @ b @ ''}'' @ r
           \<longrightarrow> length pre \<le> length u"
    and "body = object_body entries tail"
    and "well_formed entries tail"
  shows "get_e2e_suite_names_from_protractor_file config = Inr (sort (map snd entries))
    \<and> (entries = [('' '', ''alpha''), ('' [...], '', ''betaGamma'')] \<and> tail = '' [...] ''
       \<longrightarrow> get_e2e_suite_names_from_protractor_file config = Inr [''alpha'', ''betaGamma''])"
proof -
  have p: "prev_ok None" by (simp add: prev_ok_def)
  have f: "findall suite_object_regex None config
      = body # findall suite_object_regex (Some CHR ''}'') post"
    unfolding assms(1)
    by (rule findall_suite_object_regex_first_object [OF assms(2,3) assms(4) [unfolded assms(1)]])
  have k: "findall key_regex None body = map snd entries"
    unfolding assms(5) by (rule findall_key_regex_object_body [OF assms(6) p])
  have 1: "get_e2e_suite_names_from_protractor_file config = Inr (sort (map snd entries))"
    unfolding get_e2e_suite_names_from_protractor_file_def f by (simp add: k)
  then show ?thesis by auto
qed

text \<open>
  The hypotheses of C5 hold for a file where an empty \<^verbatim>\<open>suites = {}\<close> comes before the
  object of the claim.
\<close>

theorem protractor_extractor_first_suites_object_witness:
  "get_e2e_suite_names_from_protractor_file
     ''suites = {}; suites = { alpha: [...], betaGamma: [...] };''
     = Inr [''alpha'', ''betaGamma'']
   \<and> object_body [('' '', ''alpha''), ('' [...], '', ''betaGamma'')] '' [...] ''
     = '' alpha: [...], betaGamma: [...] ''
   \<and> well_formed [('' '', ''alpha''), ('' [...], '', ''betaGamma'')] '' [...] ''"
proof -
  let ?config = "''suites = {}; suites = { alpha: [...], betaGamma: [...] };''"
  let ?body = "'' alpha: [...], betaGamma: [...] ''"
  let ?entries = "[('' '', ''alpha''), ('' [...], '', ''betaGamma'')]"
  have c: "?config = ''suites = {}; '' @ ''suites = {'' @ ?body @ ''}'' @ '';''" by simp
  have n: "?body \<noteq> []" by simp
  have b: "CHR ''}'' \<notin> set ?body" by simp
  have o: "?body = object_body ?entries '' [...] ''" by simp
  have w: "well_formed ?entries '' [...] ''"
    by (simp add: well_formed_def is_gap_def is_key_def is_suite_name_char_def is_word_char_def
          is_lower_def is_upper_def is_digit_def)
  have ev: "every_position suite_object_at ?config = [?body]"
    by (simp add: suite_object_at_def)
  have first: "\<forall>u b r. b \<noteq> [] \<and> CHR ''}'' \<notin> set b \<and> ?config = u @ ''suites = {'' @ b @ ''}'' @ r
           \<longrightarrow> length (''suites = {}; '') \<le> length u"
    using first_object_from_positions
      [of "''suites = {}; ''" "CHR ''s''" "''uites = {'' @ ?body @ ''}'' @ '';''"]
    by (simp add: suite_object_at_def)
  from protractor_extractor_first_suites_object [OF c n b first o w]
  have "get_e2e_suite_names_from_protractor_file ?config = Inr [''alpha'', ''betaGamma'']"
    by blast
  with o w show ?thesis by simp
qed

text \<open>
  C5 as stated fails on a single object literal: the key \<^verbatim>\<open>e2e\<close> holds a digit, which
  the class of the key pattern lacks; the extractor returns the empty string in its place.
\<close>

theorem protractor_extractor_digit_key_counterexample:
  "get_e2e_suite_names_from_protractor_file ''suites = { alpha: [...], e2e: [...] }''
     = Inr [[], ''alpha'']"
  by (simp add: get_e2e_suite_names_from_protractor_file_def findall.simps backtrack.simps
        suite_object_regex_def key_regex_def match_here_def at_boundary_def
        is_word_char_def is_lower_def is_upper_def is_digit_def)

end
